theory Spec2Isabelle
  imports Main "HOL-Library.Sublist"
begin

section \<open>The streaming tool-call rewriter\<close>

text \<open>
  A shallow embedding of the Go package \<^verbatim>\<open>downstream\<close> (the file that declares
  \<^verbatim>\<open>ToolCallTransformer\<close>). Go strings are byte sequences and are modelled as
  \<^typ>\<open>string\<close>; the Go \<^verbatim>\<open>int\<close> and \<^verbatim>\<open>int64\<close> fields are modelled as
  \<^typ>\<open>int\<close>: the only arithmetic on them is \<^verbatim>\<open>toolIndex++\<close>, and every increment
  consumes a complete \<^verbatim>\<open><|tool_call_end|>\<close> from the input, so the 64-bit range is
  out of reach of any stream. A pointer field (\<^verbatim>\<open>*string\<close>, \<^verbatim>\<open>*Usage\<close>) is an
  \<^typ>\<open>'a option\<close>, \<^verbatim>\<open>nil\<close> being \<^term>\<open>None\<close>.

  The model starts where \<^verbatim>\<open>json.Unmarshal\<close> has filled a \<^verbatim>\<open>Chunk\<close> and ends where
  \<^verbatim>\<open>json.Marshal\<close> serialises one: the fields are those the Go types declare, and what
  the decoder drops from a payload is not seen here. The writer is replaced by the list
  of lines written. \<^verbatim>\<open>Flush\<close> and \<^verbatim>\<open>Close\<close> write nothing and change nothing, so
  they have no counterpart.
\<close>

subsection \<open>String primitives of the Go library\<close>

text \<open>\<^verbatim>\<open>strings.Index(s, sub)\<close>: the first position where \<open>sub\<close> occurs, \<^verbatim>\<open>-1\<close>
  (here \<^term>\<open>None\<close>) when it does not occur.\<close>

fun strindex :: "string \<Rightarrow> string \<Rightarrow> nat option" where
  "strindex [] sub = (if sub = [] then Some 0 else None)"
| "strindex (c # cs) sub =
     (if prefix sub (c # cs) then Some 0 else map_option Suc (strindex cs sub))"

text \<open>\<^verbatim>\<open>strings.LastIndex(s, sub)\<close>: the last position where \<open>sub\<close> occurs.\<close>

fun strlastindex :: "string \<Rightarrow> string \<Rightarrow> nat option" where
  "strlastindex [] sub = (if sub = [] then Some 0 else None)"
| "strlastindex (c # cs) sub =
     (case strlastindex cs sub of
        Some i \<Rightarrow> Some (Suc i)
      | None \<Rightarrow> if prefix sub (c # cs) then Some 0 else None)"

definition contains :: "string \<Rightarrow> string \<Rightarrow> bool" where
  "contains s sub = (strindex s sub \<noteq> None)"

text \<open>
  \<^verbatim>\<open>strings.TrimSpace\<close> removes the leading and trailing white space runes of
  \<^verbatim>\<open>unicode.IsSpace\<close>. On a byte string these are the six ASCII bytes and the UTF-8
  encodings of U+0085, U+00A0, U+1680, U+2000 to U+200A, U+2028, U+2029, U+202F, U+205F
  and U+3000.
\<close>

definition spaceRunes :: "string list" where
  "spaceRunes =
     [ [CHR 0x09], [CHR 0x0A], [CHR 0x0B], [CHR 0x0C], [CHR 0x0D], [CHR 0x20],
      [CHR 0xC2, CHR 0x85], [CHR 0xC2, CHR 0xA0],
      [CHR 0xE1, CHR 0x9A, CHR 0x80],
      [CHR 0xE2, CHR 0x80, CHR 0x80], [CHR 0xE2, CHR 0x80, CHR 0x81],
      [CHR 0xE2, CHR 0x80, CHR 0x82], [CHR 0xE2, CHR 0x80, CHR 0x83],
      [CHR 0xE2, CHR 0x80, CHR 0x84], [CHR 0xE2, CHR 0x80, CHR 0x85],
      [CHR 0xE2, CHR 0x80, CHR 0x86], [CHR 0xE2, CHR 0x80, CHR 0x87],
      [CHR 0xE2, CHR 0x80, CHR 0x88], [CHR 0xE2, CHR 0x80, CHR 0x89],
      [CHR 0xE2, CHR 0x80, CHR 0x8A],
      [CHR 0xE2, CHR 0x80, CHR 0xA8], [CHR 0xE2, CHR 0x80, CHR 0xA9],
      [CHR 0xE2, CHR 0x80, CHR 0xAF],
      [CHR 0xE2, CHR 0x81, CHR 0x9F],
      [CHR 0xE3, CHR 0x80, CHR 0x80]]"

function stripLeading :: "string list \<Rightarrow> string \<Rightarrow> string" where
  "stripLeading ws s =
     (case List.find (\<lambda>w. w \<noteq> [] \<and> prefix w s) ws of
        None \<Rightarrow> s
      | Some w \<Rightarrow> stripLeading ws (drop (length w) s))"
  by pat_completeness auto
termination
proof (relation "measure (\<lambda>(ws, s). length s)", goal_cases)
  case 1
  show ?case by simp
next
  case (2 ws s w)
  then have "w \<noteq> [] \<and> prefix w s"
    by (auto simp: find_Some_iff)
  then have "0 < length w \<and> length w \<le> length s"
    by (auto simp: prefix_length_le)
  then show ?case
    by (cases w) auto
qed

declare stripLeading.simps [simp del]

definition TrimSpace :: "string \<Rightarrow> string" where
  "TrimSpace s = rev (stripLeading (map rev spaceRunes) (rev (stripLeading spaceRunes s)))"

text \<open>The verb \<^verbatim>\<open>%d\<close> of \<^verbatim>\<open>fmt.Sprintf\<close>: the decimal digits, after a minus sign
  for a negative number.\<close>

definition digit :: "nat \<Rightarrow> char" where
  "digit n = char_of (48 + n)"

fun digits :: "nat \<Rightarrow> string" where
  "digits n = (if n < 10 then [digit n] else digits (n div 10) @ [digit (n mod 10)])"

declare digits.simps [simp del]

definition itoa :: "int \<Rightarrow> string" where
  "itoa i = (if i < 0 then CHR ''-'' # digits (nat (- i)) else digits (nat i))"

subsection \<open>The token alphabet\<close>

definition tokSectionBegin :: string where
  "tokSectionBegin = ''<|tool_calls_section_begin|>''"

definition tokCallBegin :: string where
  "tokCallBegin = ''<|tool_call_begin|>''"

definition tokArgBegin :: string where
  "tokArgBegin = ''<|tool_call_argument_begin|>''"

definition tokCallEnd :: string where
  "tokCallEnd = ''<|tool_call_end|>''"

definition tokSectionEnd :: string where
  "tokSectionEnd = ''<|tool_calls_section_end|>''"

definition containsAnyToken :: "string \<Rightarrow> bool" where
  "containsAnyToken s = contains s ''<|tool_call''"

subsection \<open>The event model\<close>

datatype parserState =
  stateIdle | stateInSection | stateReadingID | stateReadingArgs | stateTrailing

record Usage =
  PromptTokens :: int
  CompletionTokens :: int

record Function =
  Name :: string
  Arguments :: string

record ToolCall =
  CallID :: string
  CallType :: string
  CallIndex :: int
  Function :: Function

record Delta =
  Content :: string
  Reasoning :: string
  ReasoningContent :: string
  ToolCalls :: "ToolCall list"
  DeltaFinishReason :: "string option"

record Choice =
  Index :: int
  Delta :: Delta
  FinishReason :: "string option"

record Chunk =
  ID :: string
  Object :: string
  Model :: string
  Created :: int
  Choices :: "Choice list"
  Usage :: "Usage option"

text \<open>The transformer without its writer: what it writes is returned by the model.\<close>

record ToolCallTransformer =
  state :: parserState
  buf :: string
  toolIndex :: int
  currentID :: string

definition NewToolCallTransformer :: ToolCallTransformer where
  "NewToolCallTransformer = \<lparr>state = stateIdle, buf = [], toolIndex = 0, currentID = []\<rparr>"

text \<open>The zero value \<^verbatim>\<open>Delta{}\<close>.\<close>

definition zeroDelta :: Delta where
  "zeroDelta = \<lparr>Content = [], Reasoning = [], ReasoningContent = [], ToolCalls = [],
     DeltaFinishReason = None\<rparr>"

text \<open>
  What the transformer hands to its writer. The constructor records which function of the
  source built the line; the chunk is what \<^verbatim>\<open>json.Marshal\<close> serialises between
  \<^verbatim>\<open>data: \<close> and the blank line. \<open>DoneLine\<close> is \<^verbatim>\<open>data: [DONE]\<close>, and \<open>RawLine s\<close>
  is an undecodable payload sent back as it came.
\<close>

datatype emission =
  DoneLine
| RawLine string
| Verbatim Chunk
| ContentChunk Chunk
| ToolCallHeader Chunk
| ArgsDelta Chunk

subsection \<open>Identifier parsing\<close>

text \<open>\<open>millis\<close> is the reading of \<^verbatim>\<open>time.Now().UnixMilli()\<close>.\<close>

definition parseToolCallID :: "int \<Rightarrow> string \<Rightarrow> int \<Rightarrow> string \<times> string" where
  "parseToolCallID millis raw index =
     (let raw = TrimSpace raw in
      if prefix ''call_'' raw then (raw, [])
      else (''call_'' @ itoa index @ ''_'' @ itoa millis, raw))"

definition parseFunctionName :: "string \<Rightarrow> string" where
  "parseFunctionName raw =
     (let raw = TrimSpace raw;
          raw = (case strindex raw ''.'' of Some i \<Rightarrow> drop (i + 1) raw | None \<Rightarrow> raw);
          raw = (case strlastindex raw '':'' of Some i \<Rightarrow> take i raw | None \<Rightarrow> raw)
      in raw)"

subsection \<open>The chunk builders\<close>

text \<open>\<^verbatim>\<open>shallowCopy\<close> reads \<^verbatim>\<open>c.Choices[0]\<close>: on a chunk without choices Go panics,
  which is \<^term>\<open>None\<close> here.\<close>

definition shallowCopy :: "Chunk \<Rightarrow> Chunk option" where
  "shallowCopy c =
     (case Choices c of
        [] \<Rightarrow> None
      | ch # _ \<Rightarrow>
          Some (c\<lparr>Choices := [\<lparr>Index = Index ch, Delta = zeroDelta,
                                FinishReason = FinishReason ch\<rparr>]\<rparr>))"

text \<open>The assignment \<^verbatim>\<open>c.Choices[0].Delta = d\<close>.\<close>

definition setDelta :: "Delta \<Rightarrow> Chunk \<Rightarrow> Chunk option" where
  "setDelta d c =
     (case Choices c of
        [] \<Rightarrow> None
      | ch # rest \<Rightarrow> Some (c\<lparr>Choices := ch\<lparr>Delta := d\<rparr> # rest\<rparr>))"

definition makeContentChunk :: "Chunk \<Rightarrow> string \<Rightarrow> emission option" where
  "makeContentChunk base content =
     map_option ContentChunk
       (Option.bind (shallowCopy base) (setDelta (zeroDelta\<lparr>Content := content\<rparr>)))"

definition makeToolCallHeader :: "ToolCallTransformer \<Rightarrow> Chunk \<Rightarrow> string \<Rightarrow> emission option" where
  "makeToolCallHeader t base name =
     map_option ToolCallHeader
       (Option.bind (shallowCopy base)
          (setDelta (zeroDelta\<lparr>ToolCalls :=
             [\<lparr>CallID = currentID t, CallType = ''function'', CallIndex = toolIndex t,
               Function = \<lparr>Name = name, Arguments = []\<rparr>\<rparr>]\<rparr>)))"

definition makeArgsDelta :: "ToolCallTransformer \<Rightarrow> Chunk \<Rightarrow> string \<Rightarrow> emission option" where
  "makeArgsDelta t base args =
     map_option ArgsDelta
       (Option.bind (shallowCopy base)
          (setDelta (zeroDelta\<lparr>ToolCalls :=
             [\<lparr>CallID = [], CallType = [], CallIndex = toolIndex t,
               Function = \<lparr>Name = [], Arguments = args\<rparr>\<rparr>]\<rparr>)))"

text \<open>\<^verbatim>\<open>emit\<close>: the chunk as it is. \<^verbatim>\<open>json.Marshal\<close> cannot fail on a \<^verbatim>\<open>Chunk\<close>
  (strings, integers and slices of such), so the error branch has no counterpart.\<close>

definition emit :: "Chunk \<Rightarrow> emission list" where
  "emit c = [Verbatim c]"

subsection \<open>The state machine\<close>

text \<open>
  One pass through the body of the \<^verbatim>\<open>for\<close> loop of \<^verbatim>\<open>processReasoning\<close>. The result
  is \<^term>\<open>None\<close> when a builder panics; otherwise it holds whether the loop goes round
  again (\<^term>\<open>True\<close>) or returns, the transformer after the pass and the chunks appended
  to \<^verbatim>\<open>out\<close>. \<open>clock i\<close> is the clock reading taken while the identifier of the call
  with index \<open>i\<close> is parsed.
\<close>

definition sectionEnd :: "nat option \<Rightarrow> nat option \<Rightarrow> nat option" where
  "sectionEnd idx endIdx =
     (case endIdx of
        None \<Rightarrow> None
      | Some e \<Rightarrow> (case idx of None \<Rightarrow> Some e | Some i \<Rightarrow> if e < i then Some e else None))"

definition pass :: "(int \<Rightarrow> int) \<Rightarrow> Chunk \<Rightarrow> ToolCallTransformer \<Rightarrow>
    (bool \<times> ToolCallTransformer \<times> emission list) option" where
  "pass clock base t =
     (case state t of
        stateIdle \<Rightarrow>
          (case strindex (buf t) tokSectionBegin of
             None \<Rightarrow> Some (False, t, [])
           | Some idx \<Rightarrow>
               (case (if idx > 0
                      then map_option (\<lambda>e. [e]) (makeContentChunk base (take idx (buf t)))
                      else Some []) of
                  None \<Rightarrow> None
                | Some out \<Rightarrow>
                    Some (True,
                      t\<lparr>buf := drop (idx + length tokSectionBegin) (buf t),
                        state := stateInSection\<rparr>, out)))
      | stateInSection \<Rightarrow>
          (let idx = strindex (buf t) tokCallBegin;
               endIdx = strindex (buf t) tokSectionEnd
           in case sectionEnd idx endIdx of
                Some e \<Rightarrow>
                  (let trailing = drop (e + length tokSectionEnd) (buf t);
                       t' = t\<lparr>buf := [], state := stateTrailing\<rparr>
                   in if trailing \<noteq> [] then
                        map_option (\<lambda>e. (False, t', [e])) (makeContentChunk base trailing)
                      else Some (False, t', []))
              | None \<Rightarrow>
                  (case idx of
                     None \<Rightarrow> Some (False, t, [])
                   | Some i \<Rightarrow>
                       Some (True,
                         t\<lparr>buf := drop (i + length tokCallBegin) (buf t),
                           state := stateReadingID\<rparr>, [])))
      | stateReadingID \<Rightarrow>
          (case strindex (buf t) tokArgBegin of
             None \<Rightarrow> Some (False, t, [])
           | Some argIdx \<Rightarrow>
               (let rawID = TrimSpace (take argIdx (buf t));
                    name = parseFunctionName rawID;
                    t' = t\<lparr>currentID := fst (parseToolCallID (clock (toolIndex t)) rawID (toolIndex t)),
                           buf := drop (argIdx + length tokArgBegin) (buf t),
                           state := stateReadingArgs\<rparr>
                in map_option (\<lambda>e. (True, t', [e])) (makeToolCallHeader t' base name)))
      | stateReadingArgs \<Rightarrow>
          (case strindex (buf t) tokCallEnd of
             None \<Rightarrow>
               (if buf t \<noteq> [] then
                  map_option (\<lambda>e. (False, t\<lparr>buf := []\<rparr>, [e])) (makeArgsDelta t base (buf t))
                else Some (False, t, []))
           | Some endIdx \<Rightarrow>
               (case (if take endIdx (buf t) \<noteq> []
                      then map_option (\<lambda>e. [e]) (makeArgsDelta t base (take endIdx (buf t)))
                      else Some []) of
                  None \<Rightarrow> None
                | Some out \<Rightarrow>
                    Some (True,
                      t\<lparr>buf := drop (endIdx + length tokCallEnd) (buf t),
                        toolIndex := toolIndex t + 1,
                        state := stateInSection\<rparr>, out)))
      | stateTrailing \<Rightarrow> Some (False, t, []))"

lemma strindex_bound: "strindex s sub = Some i \<Longrightarrow> i + length sub \<le> length s"
proof (induction s arbitrary: i)
  case Nil
  then show ?case by (simp split: if_splits)
next
  case (Cons c cs)
  show ?case
  proof (cases "prefix sub (c # cs)")
    case True
    with Cons.prems show ?thesis using prefix_length_le [OF True] by simp
  next
    case False
    with Cons.prems obtain j where "strindex cs sub = Some j" and "i = Suc j"
      by auto
    with Cons.IH show ?thesis by fastforce
  qed
qed

lemma token_lengths:
  "length tokSectionBegin = 28" "length tokCallBegin = 19" "length tokArgBegin = 28"
  "length tokCallEnd = 17" "length tokSectionEnd = 26"
  by (simp_all add: tokSectionBegin_def tokCallBegin_def tokArgBegin_def tokCallEnd_def
      tokSectionEnd_def)

lemma pass_shrinks:
  assumes "pass clock base t = Some (True, t', out)"
  shows "length (buf t') < length (buf t)"
proof (cases "state t")
  case stateIdle
  with assms obtain idx where "strindex (buf t) tokSectionBegin = Some idx"
    and "buf t' = drop (idx + length tokSectionBegin) (buf t)"
    by (auto simp: pass_def split: option.splits if_splits)
  then show ?thesis
    using strindex_bound [of "buf t" tokSectionBegin idx] by (simp add: token_lengths)
next
  case stateInSection
  with assms obtain idx where "strindex (buf t) tokCallBegin = Some idx"
    and "buf t' = drop (idx + length tokCallBegin) (buf t)"
    by (auto simp: pass_def Let_def split: option.splits if_splits)
  then show ?thesis
    using strindex_bound [of "buf t" tokCallBegin idx] by (simp add: token_lengths)
next
  case stateReadingID
  with assms obtain idx where "strindex (buf t) tokArgBegin = Some idx"
    and "buf t' = drop (idx + length tokArgBegin) (buf t)"
    by (auto simp: pass_def Let_def split: option.splits if_splits)
  then show ?thesis
    using strindex_bound [of "buf t" tokArgBegin idx] by (simp add: token_lengths)
next
  case stateReadingArgs
  with assms obtain idx where "strindex (buf t) tokCallEnd = Some idx"
    and "buf t' = drop (idx + length tokCallEnd) (buf t)"
    by (auto simp: pass_def Let_def split: option.splits if_splits)
  then show ?thesis
    using strindex_bound [of "buf t" tokCallEnd idx] by (simp add: token_lengths)
next
  case stateTrailing
  with assms show ?thesis by (simp add: pass_def)
qed

text \<open>The \<^verbatim>\<open>for\<close> loop: passes until one returns. Every pass that goes round again has
  dropped a delimiter from \<^verbatim>\<open>buf\<close>, so the loop ends.\<close>

function processLoop :: "(int \<Rightarrow> int) \<Rightarrow> Chunk \<Rightarrow> ToolCallTransformer \<Rightarrow>
    (ToolCallTransformer \<times> emission list) option" where
  "processLoop clock base t =
     (case pass clock base t of
        None \<Rightarrow> None
      | Some (again, t', out) \<Rightarrow>
          if again then
            (case processLoop clock base t' of
               None \<Rightarrow> None
             | Some (t'', out') \<Rightarrow> Some (t'', out @ out'))
          else Some (t', out))"
  by pat_completeness auto
termination
  by (relation "measure (\<lambda>(clock, base, t). length (buf t))") (auto dest: pass_shrinks)

declare processLoop.simps [simp del]

definition processReasoning :: "(int \<Rightarrow> int) \<Rightarrow> ToolCallTransformer \<Rightarrow> Chunk \<Rightarrow> string \<Rightarrow>
    (ToolCallTransformer \<times> emission list) option" where
  "processReasoning clock t base text = processLoop clock base (t\<lparr>buf := buf t @ text\<rparr>)"

text \<open>The first block of \<^verbatim>\<open>processEvent\<close> after decoding: a \<^verbatim>\<open>finish_reason\<close> found in
  the delta of the first choice is moved onto the choice.\<close>

definition promoteFinishReason :: "Chunk \<Rightarrow> Chunk" where
  "promoteFinishReason c =
     (case Choices c of
        [] \<Rightarrow> c
      | ch # rest \<Rightarrow>
          (case DeltaFinishReason (Delta ch) of
             None \<Rightarrow> c
           | Some f \<Rightarrow>
               c\<lparr>Choices :=
                   ch\<lparr>FinishReason := Some f,
                      Delta := (Delta ch)\<lparr>DeltaFinishReason := None\<rparr>\<rparr> # rest\<rparr>))"

text \<open>The text the rewriter reads from a chunk: \<^verbatim>\<open>reasoning\<close>, or
  \<^verbatim>\<open>reasoning_content\<close> when that is empty.\<close>

definition reasoningOf :: "Choice \<Rightarrow> string" where
  "reasoningOf ch =
     (if Reasoning (Delta ch) = [] then ReasoningContent (Delta ch) else Reasoning (Delta ch))"

text \<open>
  The payload of an event as \<^verbatim>\<open>processEvent\<close> sees it after \<^verbatim>\<open>strings.TrimSpace\<close> and
  \<^verbatim>\<open>json.Unmarshal\<close>: the text \<^verbatim>\<open>[DONE]\<close>, a text the decoder rejects, or a chunk.
\<close>

datatype payload = DoneText | Undecodable string | Decoded Chunk

definition processEvent :: "(int \<Rightarrow> int) \<Rightarrow> ToolCallTransformer \<Rightarrow> payload \<Rightarrow>
    (ToolCallTransformer \<times> emission list) option" where
  "processEvent clock t p =
     (case p of
        DoneText \<Rightarrow> Some (t, [DoneLine])
      | Undecodable s \<Rightarrow> Some (t, [RawLine s])
      | Decoded c \<Rightarrow>
          (let chunk = promoteFinishReason c in
           case Choices chunk of
             [] \<Rightarrow> Some (t, emit chunk)
           | ch # _ \<Rightarrow>
               (let reasoning = reasoningOf ch in
                if \<not> containsAnyToken reasoning \<and> state t = stateIdle
                then Some (t, emit chunk)
                else processReasoning clock t chunk reasoning)))"

text \<open>
  \<^verbatim>\<open>Transform\<close>: an event whose data is empty writes nothing, one whose data is
  \<^verbatim>\<open>[DONE]\<close> writes the done line, any other goes through \<^verbatim>\<open>processEvent\<close> and
  every line returned is written.
\<close>

datatype event = EmptyData | DoneData | Data payload

definition Transform :: "(int \<Rightarrow> int) \<Rightarrow> ToolCallTransformer \<Rightarrow> event \<Rightarrow>
    (ToolCallTransformer \<times> emission list) option" where
  "Transform clock t ev =
     (case ev of
        EmptyData \<Rightarrow> Some (t, [])
      | DoneData \<Rightarrow> Some (t, [DoneLine])
      | Data p \<Rightarrow> processEvent clock t p)"

text \<open>The loop of \<^verbatim>\<open>streamResponse\<close> over the events of one response, for the
  tool-call transformer: the lines written, in order.\<close>

fun transformAll :: "(int \<Rightarrow> int) \<Rightarrow> ToolCallTransformer \<Rightarrow> event list \<Rightarrow>
    (ToolCallTransformer \<times> emission list) option" where
  "transformAll clock t [] = Some (t, [])"
| "transformAll clock t (ev # evs) =
     (case Transform clock t ev of
        None \<Rightarrow> None
      | Some (t', out) \<Rightarrow>
          (case transformAll clock t' evs of
             None \<Rightarrow> None
           | Some (t'', out') \<Rightarrow> Some (t'', out @ out')))"

subsection \<open>Reading the emitted lines\<close>

text \<open>The chunk a line carries, and the fields of its first choice that the properties
  below speak about.\<close>

definition chunkOf :: "emission \<Rightarrow> Chunk option" where
  "chunkOf e =
     (case e of
        DoneLine \<Rightarrow> None
      | RawLine s \<Rightarrow> None
      | Verbatim c \<Rightarrow> Some c
      | ContentChunk c \<Rightarrow> Some c
      | ToolCallHeader c \<Rightarrow> Some c
      | ArgsDelta c \<Rightarrow> Some c)"

definition rewritten :: "emission \<Rightarrow> bool" where
  "rewritten e =
     (case e of
        ContentChunk c \<Rightarrow> True
      | ToolCallHeader c \<Rightarrow> True
      | ArgsDelta c \<Rightarrow> True
      | _ \<Rightarrow> False)"

definition deltaOf :: "Chunk \<Rightarrow> Delta" where
  "deltaOf c = (case Choices c of [] \<Rightarrow> zeroDelta | ch # _ \<Rightarrow> Delta ch)"

definition reasoningText :: "Chunk \<Rightarrow> string" where
  "reasoningText c = (case Choices c of [] \<Rightarrow> [] | ch # _ \<Rightarrow> reasoningOf ch)"

definition contentField :: "emission \<Rightarrow> string" where
  "contentField e = (case chunkOf e of None \<Rightarrow> [] | Some c \<Rightarrow> Content (deltaOf c))"

definition reasoningField :: "emission \<Rightarrow> string" where
  "reasoningField e = (case chunkOf e of None \<Rightarrow> [] | Some c \<Rightarrow> reasoningText c)"

definition toolCallOf :: "Chunk \<Rightarrow> ToolCall option" where
  "toolCallOf c = (case ToolCalls (deltaOf c) of [tc] \<Rightarrow> Some tc | _ \<Rightarrow> None)"

text \<open>The tool call announced by a header chunk; the index and the argument bytes of an
  argument delta; the text of a content chunk.\<close>

definition headerOf :: "emission \<Rightarrow> ToolCall option" where
  "headerOf e = (case e of ToolCallHeader c \<Rightarrow> toolCallOf c | _ \<Rightarrow> None)"

definition argsOf :: "emission \<Rightarrow> (int \<times> string) option" where
  "argsOf e =
     (case e of
        ArgsDelta c \<Rightarrow> map_option (\<lambda>tc. (CallIndex tc, Arguments (Function tc))) (toolCallOf c)
      | _ \<Rightarrow> None)"

definition contentOf :: "emission \<Rightarrow> string option" where
  "contentOf e = (case e of ContentChunk c \<Rightarrow> Some (Content (deltaOf c)) | _ \<Rightarrow> None)"

text \<open>The kind of an emitted line, for the order of a stream: a content chunk, the
  header of the call with a given index, an argument delta for the call with a given
  index, or anything else (a chunk passed through, the done line, a raw line).\<close>

datatype kind = KOther | KContent | KHeader int | KArgs int

definition kindOf :: "emission \<Rightarrow> kind" where
  "kindOf e =
     (case e of
        ContentChunk c \<Rightarrow> KContent
      | ToolCallHeader c \<Rightarrow>
          (case toolCallOf c of Some tc \<Rightarrow> KHeader (CallIndex tc) | None \<Rightarrow> KOther)
      | ArgsDelta c \<Rightarrow>
          (case toolCallOf c of Some tc \<Rightarrow> KArgs (CallIndex tc) | None \<Rightarrow> KOther)
      | _ \<Rightarrow> KOther)"

text \<open>
  The order of a stream is followed on its history, the kinds of the lines emitted so
  far with the newest first. In a history with \<open>headersFirst\<close> every argument delta has
  the header of its index earlier in the stream; with \<open>indicesRise\<close> no argument delta
  has a smaller index than a header emitted before it; \<open>contentAfterHeader\<close> says that
  some content chunk was emitted after some header; with \<open>argsBeforeContent\<close> no
  argument delta was emitted after such a content chunk.
\<close>

fun headersFirst :: "kind list \<Rightarrow> bool" where
  "headersFirst [] = True"
| "headersFirst (x # h) =
     ((case x of KArgs i \<Rightarrow> KHeader i \<in> set h | _ \<Rightarrow> True) \<and> headersFirst h)"

definition headersUpTo :: "int \<Rightarrow> kind list \<Rightarrow> bool" where
  "headersUpTo n h = list_all (\<lambda>y. case y of KHeader i \<Rightarrow> i \<le> n | _ \<Rightarrow> True) h"

definition headersBelow :: "int \<Rightarrow> kind list \<Rightarrow> bool" where
  "headersBelow n h = list_all (\<lambda>y. case y of KHeader i \<Rightarrow> i < n | _ \<Rightarrow> True) h"

fun indicesRise :: "kind list \<Rightarrow> bool" where
  "indicesRise [] = True"
| "indicesRise (x # h) =
     ((case x of KArgs i \<Rightarrow> headersUpTo i h | _ \<Rightarrow> True) \<and> indicesRise h)"

definition isHeader :: "kind \<Rightarrow> bool" where
  "isHeader x = (case x of KHeader i \<Rightarrow> True | _ \<Rightarrow> False)"

fun contentAfterHeader :: "kind list \<Rightarrow> bool" where
  "contentAfterHeader [] = False"
| "contentAfterHeader (x # h) = ((x = KContent \<and> list_ex isHeader h) \<or> contentAfterHeader h)"

fun argsBeforeContent :: "kind list \<Rightarrow> bool" where
  "argsBeforeContent [] = True"
| "argsBeforeContent (x # h) =
     ((case x of KArgs i \<Rightarrow> \<not> contentAfterHeader h | _ \<Rightarrow> True) \<and> argsBeforeContent h)"

text \<open>In a history with \<open>headersNumbered\<close> every header carries as index the number of
  headers emitted before it: the calls of a stream are numbered 0, 1, 2 and so on, in
  the order of their headers.\<close>

fun headersNumbered :: "kind list \<Rightarrow> bool" where
  "headersNumbered [] = True"
| "headersNumbered (x # h) =
     ((case x of KHeader i \<Rightarrow> i = int (length (filter isHeader h)) | _ \<Rightarrow> True) \<and>
      headersNumbered h)"

text \<open>The invariant of the state machine on a history: the three orders and the numbering
  above; the number of headers emitted is the tool index, and one more while arguments
  are being read; every header emitted has an index up to the tool index, and below it
  unless arguments are being read, when the header of the tool index is out; until the
  section has ended no content chunk follows a header; and an idle transformer has
  emitted nothing of its own.\<close>

definition ordered :: "parserState \<Rightarrow> int \<Rightarrow> kind list \<Rightarrow> bool" where
  "ordered st n h \<longleftrightarrow>
     headersFirst h \<and> indicesRise h \<and> argsBeforeContent h \<and> headersNumbered h \<and>
     int (length (filter isHeader h)) = (if st = stateReadingArgs then n + 1 else n) \<and>
     (if st = stateReadingArgs then headersUpTo n h \<and> KHeader n \<in> set h
      else headersBelow n h) \<and>
     (st \<noteq> stateTrailing \<longrightarrow> \<not> contentAfterHeader h) \<and>
     (st = stateIdle \<longrightarrow> list_all (\<lambda>y. y = KOther) h)"

text \<open>
  The payload of a stream, byte by byte, so that two streams that differ only in how
  content and argument bytes are grouped into chunks have the same payload: the content
  bytes of content chunks and of chunks passed through, the id, name and index of every
  header, and the argument bytes of every argument delta with their index.
\<close>

datatype item = ContentByte char | HeaderItem string string int | ArgByte int char

definition itemsOf :: "emission \<Rightarrow> item list" where
  "itemsOf e =
     (case e of
        DoneLine \<Rightarrow> []
      | RawLine s \<Rightarrow> []
      | Verbatim c \<Rightarrow> map ContentByte (Content (deltaOf c))
      | ContentChunk c \<Rightarrow> map ContentByte (Content (deltaOf c))
      | ToolCallHeader c \<Rightarrow>
          (case toolCallOf c of
             Some tc \<Rightarrow> [HeaderItem (CallID tc) (Name (Function tc)) (CallIndex tc)]
           | None \<Rightarrow> [])
      | ArgsDelta c \<Rightarrow>
          (case toolCallOf c of
             Some tc \<Rightarrow> map (ArgByte (CallIndex tc)) (Arguments (Function tc))
           | None \<Rightarrow> []))"

definition payloadOf :: "emission list \<Rightarrow> item list" where
  "payloadOf out = concat (map itemsOf out)"

text \<open>The chunk the builders start from: the base with one choice that keeps the index
  and the \<^verbatim>\<open>finish_reason\<close> of the base's first choice and carries the delta \<open>d\<close>.\<close>

definition rebased :: "Chunk \<Rightarrow> Choice \<Rightarrow> Delta \<Rightarrow> Chunk" where
  "rebased base ch d =
     base\<lparr>Choices := [\<lparr>Index = Index ch, Delta = d, FinishReason = FinishReason ch\<rparr>]\<rparr>"

definition finishField :: "emission \<Rightarrow> string option" where
  "finishField e =
     (case chunkOf e of
        None \<Rightarrow> None
      | Some c \<Rightarrow> (case Choices c of [] \<Rightarrow> None | ch # _ \<Rightarrow> FinishReason ch))"

text \<open>The \<^verbatim>\<open>finish_reason\<close> of a choice once \<^verbatim>\<open>processEvent\<close> has promoted it: the
  one in the delta when there is one, the choice's own otherwise.\<close>

definition finishReasonOf :: "Choice \<Rightarrow> string option" where
  "finishReasonOf ch =
     (case DeltaFinishReason (Delta ch) of Some f \<Rightarrow> Some f | None \<Rightarrow> FinishReason ch)"

text \<open>A text ends in a partial delimiter when one of its suffixes is a proper, non-empty
  prefix of the delimiter: more input could complete it.\<close>

definition endsWithPartial :: "string \<Rightarrow> string \<Rightarrow> bool" where
  "endsWithPartial s tok = list_ex (\<lambda>n. suffix (take n tok) s) [1..<length tok]"

subsection \<open>The trimmed identifier in the words of the specification\<close>

text \<open>
  \<open>After trimming surrounding whitespace\<close>, written without the library function. A text
  is white space when it is a sequence of white-space runes; \<open>trimmed raw u\<close> says that
  \<open>u\<close> is \<open>raw\<close> without its surrounding white space: \<open>raw\<close> is \<open>u\<close> between two texts
  that are white space (the first of some length \<open>n\<close>), and \<open>u\<close> neither begins nor ends
  with a white-space rune.
\<close>

lemma spaceRunes_nonempty: "w \<in> set spaceRunes \<Longrightarrow> w \<noteq> []"
  by (auto simp: spaceRunes_def)

function whiteSpace :: "string \<Rightarrow> bool" where
  "whiteSpace s =
     (s = [] \<or> list_ex (\<lambda>w. if prefix w s then whiteSpace (drop (length w) s) else False) spaceRunes)"
  by pat_completeness auto
termination
proof (relation "measure length", goal_cases)
  case 1
  show ?case by simp
next
  case (2 s w)
  then show ?case
    using spaceRunes_nonempty [of w] by (cases s) auto
qed

declare whiteSpace.simps [simp del]

definition startsWithSpace :: "string \<Rightarrow> bool" where
  "startsWithSpace s = list_ex (\<lambda>w. prefix w s) spaceRunes"

definition endsWithSpace :: "string \<Rightarrow> bool" where
  "endsWithSpace s = list_ex (\<lambda>w. suffix w s) spaceRunes"

definition trimmed :: "string \<Rightarrow> string \<Rightarrow> bool" where
  "trimmed raw u \<longleftrightarrow>
     \<not> startsWithSpace u \<and> \<not> endsWithSpace u \<and>
     list_ex (\<lambda>n. whiteSpace (take n raw) \<and> take (length u) (drop n raw) = u \<and>
               whiteSpace (drop (n + length u) raw)) [0..<Suc (length raw)]"

text \<open>The bytes a white-space rune begins with.\<close>

definition leadBytes :: "char list" where
  "leadBytes = [CHR 0x09, CHR 0x0A, CHR 0x0B, CHR 0x0C, CHR 0x0D, CHR 0x20,
     CHR 0xC2, CHR 0xE1, CHR 0xE2, CHR 0xE3]"

subsection \<open>The function name in the words of the specification\<close>

text \<open>\<open>The substring after the first '.' (if any)\<close> and \<open>the substring before the last
  ':' (if any)\<close>, written without positions.\<close>

definition afterFirstDot :: "string \<Rightarrow> string" where
  "afterFirstDot s =
     (if CHR ''.'' \<in> set s then tl (dropWhile (\<lambda>c. c \<noteq> CHR ''.'') s) else s)"

definition beforeLastColon :: "string \<Rightarrow> string" where
  "beforeLastColon s =
     (if CHR '':'' \<in> set s then rev (tl (dropWhile (\<lambda>c. c \<noteq> CHR '':'') (rev s))) else s)"

subsection \<open>Upstream chunks used as examples\<close>

text \<open>A chunk as the upstream sends it: one choice, the text in \<^verbatim>\<open>delta.reasoning\<close>,
  the \<^verbatim>\<open>finish_reason\<close> of the choice as given.\<close>

definition upstreamChunk :: "string \<Rightarrow> string option \<Rightarrow> Chunk" where
  "upstreamChunk r f =
     \<lparr>ID = ''chatcmpl-1'', Object = ''chat.completion.chunk'', Model = ''test'', Created = 123,
      Choices = [\<lparr>Index = 0, Delta = zeroDelta\<lparr>Reasoning := r\<rparr>, FinishReason = f\<rparr>],
      Usage = None\<rparr>"

text \<open>The last chunk of a stream as the upstream has been seen to send it: no text, the
  \<^verbatim>\<open>finish_reason\<close> inside the delta.\<close>

definition finishChunk :: "string \<Rightarrow> Chunk" where
  "finishChunk f =
     \<lparr>ID = ''chatcmpl-1'', Object = ''chat.completion.chunk'', Model = ''test'', Created = 123,
      Choices = [\<lparr>Index = 0, Delta = zeroDelta\<lparr>DeltaFinishReason := Some f\<rparr>,
                  FinishReason = None\<rparr>],
      Usage = None\<rparr>"

text \<open>A transformer in a given state with a given buffer, before its first tool call.\<close>

definition transformerIn :: "parserState \<Rightarrow> string \<Rightarrow> ToolCallTransformer" where
  "transformerIn st b = \<lparr>state = st, buf = b, toolIndex = 0, currentID = []\<rparr>"

text \<open>The transformer once it has read, from a fresh start and at clock reading 42, the
  section delimiter and the header of a first call \<open>bash:1\<close>: it is reading arguments.\<close>

definition sectionOpening :: string where
  "sectionOpening =
     ''<|tool_calls_section_begin|><|tool_call_begin|>bash:1<|tool_call_argument_begin|>''"

definition readingArgs0 :: ToolCallTransformer where
  "readingArgs0 =
     \<lparr>state = stateReadingArgs, buf = [], toolIndex = 0, currentID = ''call_0_42''\<rparr>"

section \<open>Properties\<close>

subsection \<open>The builders on a base with a choice\<close>

lemma makeContentChunk_Some:
  "Choices base = ch # rest \<Longrightarrow>
   makeContentChunk base s = Some (ContentChunk (rebased base ch (zeroDelta\<lparr>Content := s\<rparr>)))"
  by (simp add: makeContentChunk_def shallowCopy_def setDelta_def rebased_def)

lemma makeToolCallHeader_Some:
  "Choices base = ch # rest \<Longrightarrow>
   makeToolCallHeader t base name =
     Some (ToolCallHeader (rebased base ch (zeroDelta\<lparr>ToolCalls :=
       [\<lparr>CallID = currentID t, CallType = ''function'', CallIndex = toolIndex t,
         Function = \<lparr>Name = name, Arguments = []\<rparr>\<rparr>]\<rparr>)))"
  by (simp add: makeToolCallHeader_def shallowCopy_def setDelta_def rebased_def)

lemma makeArgsDelta_Some:
  "Choices base = ch # rest \<Longrightarrow>
   makeArgsDelta t base args =
     Some (ArgsDelta (rebased base ch (zeroDelta\<lparr>ToolCalls :=
       [\<lparr>CallID = [], CallType = [], CallIndex = toolIndex t,
         Function = \<lparr>Name = [], Arguments = args\<rparr>\<rparr>]\<rparr>)))"
  by (simp add: makeArgsDelta_def shallowCopy_def setDelta_def rebased_def)

lemmas builders_Some = makeContentChunk_Some makeToolCallHeader_Some makeArgsDelta_Some

lemma deltaOf_rebased [simp]: "deltaOf (rebased base ch d) = d"
  by (simp add: deltaOf_def rebased_def)

lemma Choices_rebased [simp]:
  "Choices (rebased base ch d) = [\<lparr>Index = Index ch, Delta = d, FinishReason = FinishReason ch\<rparr>]"
  by (simp add: rebased_def)

subsection \<open>One pass, state by state\<close>

lemma pass_Idle_wait:
  "state t = stateIdle \<Longrightarrow> strindex (buf t) tokSectionBegin = None \<Longrightarrow>
   pass clock base t = Some (False, t, [])"
  by (simp add: pass_def)

lemma pass_Idle_found:
  "state t = stateIdle \<Longrightarrow> strindex (buf t) tokSectionBegin = Some idx \<Longrightarrow>
   Choices base = ch # rest \<Longrightarrow>
   pass clock base t =
     Some (True, t\<lparr>buf := drop (idx + length tokSectionBegin) (buf t), state := stateInSection\<rparr>,
       if idx > 0 then [ContentChunk (rebased base ch (zeroDelta\<lparr>Content := take idx (buf t)\<rparr>))]
       else [])"
  by (simp add: pass_def builders_Some)

lemma pass_InSection_end:
  "state t = stateInSection \<Longrightarrow>
   sectionEnd (strindex (buf t) tokCallBegin) (strindex (buf t) tokSectionEnd) = Some e \<Longrightarrow>
   Choices base = ch # rest \<Longrightarrow>
   pass clock base t =
     Some (False, t\<lparr>buf := [], state := stateTrailing\<rparr>,
       if drop (e + length tokSectionEnd) (buf t) \<noteq> []
       then [ContentChunk (rebased base ch
               (zeroDelta\<lparr>Content := drop (e + length tokSectionEnd) (buf t)\<rparr>))]
       else [])"
  by (simp add: pass_def builders_Some Let_def)

lemma pass_InSection_wait:
  "state t = stateInSection \<Longrightarrow>
   strindex (buf t) tokCallBegin = None \<Longrightarrow> strindex (buf t) tokSectionEnd = None \<Longrightarrow>
   pass clock base t = Some (False, t, [])"
  by (simp add: pass_def sectionEnd_def)

lemma pass_InSection_call:
  "state t = stateInSection \<Longrightarrow>
   sectionEnd (strindex (buf t) tokCallBegin) (strindex (buf t) tokSectionEnd) = None \<Longrightarrow>
   strindex (buf t) tokCallBegin = Some i \<Longrightarrow>
   pass clock base t =
     Some (True, t\<lparr>buf := drop (i + length tokCallBegin) (buf t), state := stateReadingID\<rparr>, [])"
  by (simp add: pass_def Let_def)

lemma pass_ReadingID_wait:
  "state t = stateReadingID \<Longrightarrow> strindex (buf t) tokArgBegin = None \<Longrightarrow>
   pass clock base t = Some (False, t, [])"
  by (simp add: pass_def)

lemma pass_ReadingID_found:
  "state t = stateReadingID \<Longrightarrow> strindex (buf t) tokArgBegin = Some k \<Longrightarrow>
   Choices base = ch # rest \<Longrightarrow>
   pass clock base t =
     Some (True,
       t\<lparr>currentID := fst (parseToolCallID (clock (toolIndex t)) (TrimSpace (take k (buf t)))
                          (toolIndex t)),
         buf := drop (k + length tokArgBegin) (buf t),
         state := stateReadingArgs\<rparr>,
       [ToolCallHeader (rebased base ch (zeroDelta\<lparr>ToolCalls :=
          [\<lparr>CallID = fst (parseToolCallID (clock (toolIndex t)) (TrimSpace (take k (buf t)))
                       (toolIndex t)),
            CallType = ''function'', CallIndex = toolIndex t,
            Function = \<lparr>Name = parseFunctionName (TrimSpace (take k (buf t))),
                         Arguments = []\<rparr>\<rparr>]\<rparr>))])"
  by (simp add: pass_def builders_Some Let_def)

lemma pass_ReadingArgs_flush:
  "state t = stateReadingArgs \<Longrightarrow> strindex (buf t) tokCallEnd = None \<Longrightarrow>
   Choices base = ch # rest \<Longrightarrow>
   pass clock base t =
     Some (False, t\<lparr>buf := []\<rparr>,
       if buf t \<noteq> []
       then [ArgsDelta (rebased base ch (zeroDelta\<lparr>ToolCalls :=
               [\<lparr>CallID = [], CallType = [], CallIndex = toolIndex t,
                 Function = \<lparr>Name = [], Arguments = buf t\<rparr>\<rparr>]\<rparr>))]
       else [])"
  by (cases t) (simp add: pass_def builders_Some)

lemma pass_ReadingArgs_end:
  "state t = stateReadingArgs \<Longrightarrow> strindex (buf t) tokCallEnd = Some k \<Longrightarrow>
   Choices base = ch # rest \<Longrightarrow>
   pass clock base t =
     Some (True,
       t\<lparr>buf := drop (k + length tokCallEnd) (buf t), toolIndex := toolIndex t + 1,
         state := stateInSection\<rparr>,
       if take k (buf t) \<noteq> []
       then [ArgsDelta (rebased base ch (zeroDelta\<lparr>ToolCalls :=
               [\<lparr>CallID = [], CallType = [], CallIndex = toolIndex t,
                 Function = \<lparr>Name = [], Arguments = take k (buf t)\<rparr>\<rparr>]\<rparr>))]
       else [])"
  by (simp add: pass_def builders_Some)

lemma pass_Trailing: "state t = stateTrailing \<Longrightarrow> pass clock base t = Some (False, t, [])"
  by (simp add: pass_def)

subsection \<open>One pass as a rewrite rule, for a base that has a choice\<close>

lemma pass_Idle:
  "state t = stateIdle \<Longrightarrow> Choices base = ch # rest \<Longrightarrow>
   pass clock base t =
     (case strindex (buf t) tokSectionBegin of
        None \<Rightarrow> Some (False, t, [])
      | Some idx \<Rightarrow>
          Some (True,
            t\<lparr>buf := drop (idx + length tokSectionBegin) (buf t), state := stateInSection\<rparr>,
            if idx > 0
            then [ContentChunk (rebased base ch (zeroDelta\<lparr>Content := take idx (buf t)\<rparr>))]
            else []))"
  by (simp add: pass_Idle_wait pass_Idle_found split: option.split)

lemma pass_InSection:
  "state t = stateInSection \<Longrightarrow> Choices base = ch # rest \<Longrightarrow>
   pass clock base t =
     (case sectionEnd (strindex (buf t) tokCallBegin) (strindex (buf t) tokSectionEnd) of
        Some e \<Rightarrow>
          Some (False, t\<lparr>buf := [], state := stateTrailing\<rparr>,
            if drop (e + length tokSectionEnd) (buf t) \<noteq> []
            then [ContentChunk (rebased base ch
                    (zeroDelta\<lparr>Content := drop (e + length tokSectionEnd) (buf t)\<rparr>))]
            else [])
      | None \<Rightarrow>
          (case strindex (buf t) tokCallBegin of
             None \<Rightarrow> Some (False, t, [])
           | Some i \<Rightarrow>
               Some (True,
                 t\<lparr>buf := drop (i + length tokCallBegin) (buf t), state := stateReadingID\<rparr>,
                 [])))"
  by (simp add: pass_def builders_Some Let_def split: option.split)

lemma pass_ReadingID:
  "state t = stateReadingID \<Longrightarrow> Choices base = ch # rest \<Longrightarrow>
   pass clock base t =
     (case strindex (buf t) tokArgBegin of
        None \<Rightarrow> Some (False, t, [])
      | Some k \<Rightarrow>
          Some (True,
            t\<lparr>currentID := fst (parseToolCallID (clock (toolIndex t)) (TrimSpace (take k (buf t)))
                               (toolIndex t)),
              buf := drop (k + length tokArgBegin) (buf t),
              state := stateReadingArgs\<rparr>,
            [ToolCallHeader (rebased base ch (zeroDelta\<lparr>ToolCalls :=
               [\<lparr>CallID = fst (parseToolCallID (clock (toolIndex t))
                            (TrimSpace (take k (buf t))) (toolIndex t)),
                 CallType = ''function'', CallIndex = toolIndex t,
                 Function = \<lparr>Name = parseFunctionName (TrimSpace (take k (buf t))),
                              Arguments = []\<rparr>\<rparr>]\<rparr>))]))"
  by (simp add: pass_ReadingID_wait pass_ReadingID_found split: option.split)

lemma pass_ReadingArgs:
  "state t = stateReadingArgs \<Longrightarrow> Choices base = ch # rest \<Longrightarrow>
   pass clock base t =
     (case strindex (buf t) tokCallEnd of
        None \<Rightarrow>
          Some (False, t\<lparr>buf := []\<rparr>,
            if buf t \<noteq> []
            then [ArgsDelta (rebased base ch (zeroDelta\<lparr>ToolCalls :=
                    [\<lparr>CallID = [], CallType = [], CallIndex = toolIndex t,
                      Function = \<lparr>Name = [], Arguments = buf t\<rparr>\<rparr>]\<rparr>))]
            else [])
      | Some k \<Rightarrow>
          Some (True,
            t\<lparr>buf := drop (k + length tokCallEnd) (buf t), toolIndex := toolIndex t + 1,
              state := stateInSection\<rparr>,
            if take k (buf t) \<noteq> []
            then [ArgsDelta (rebased base ch (zeroDelta\<lparr>ToolCalls :=
                    [\<lparr>CallID = [], CallType = [], CallIndex = toolIndex t,
                      Function = \<lparr>Name = [], Arguments = take k (buf t)\<rparr>\<rparr>]\<rparr>))]
            else []))"
  by (simp add: pass_ReadingArgs_flush pass_ReadingArgs_end split: option.split)

lemmas pass_rules = pass_Idle pass_InSection pass_ReadingID pass_ReadingArgs pass_Trailing

lemmas token_defs = tokSectionBegin_def tokCallBegin_def tokArgBegin_def tokCallEnd_def
  tokSectionEnd_def

subsection \<open>Promotion of the finish reason\<close>

lemma promote_no_choice: "Choices c = [] \<Longrightarrow> promoteFinishReason c = c"
  by (simp add: promoteFinishReason_def)

lemma promote_choice:
  "Choices c = ch # rest \<Longrightarrow>
   Choices (promoteFinishReason c) =
     \<lparr>Index = Index ch, Delta = (Delta ch)\<lparr>DeltaFinishReason := None\<rparr>,
      FinishReason = finishReasonOf ch\<rparr> # rest"
  by (cases ch) (auto simp: promoteFinishReason_def finishReasonOf_def split: option.splits)

lemma promote_fields [simp]:
  "ID (promoteFinishReason c) = ID c" "Object (promoteFinishReason c) = Object c"
  "Model (promoteFinishReason c) = Model c" "Created (promoteFinishReason c) = Created c"
  "Usage (promoteFinishReason c) = Usage c"
  by (simp_all add: promoteFinishReason_def split: list.splits option.splits)

lemma reasoningOf_promoted [simp]:
  "reasoningOf \<lparr>Index = i, Delta = (Delta ch)\<lparr>DeltaFinishReason := None\<rparr>, FinishReason = f\<rparr>
     = reasoningOf ch"
  by (simp add: reasoningOf_def)

lemma processEvent_no_choice:
  "Choices c = [] \<Longrightarrow> processEvent clock t (Decoded c) = Some (t, [Verbatim c])"
  by (simp add: processEvent_def promote_no_choice emit_def)

lemma processEvent_choice:
  "Choices c = ch # rest \<Longrightarrow>
   processEvent clock t (Decoded c) =
     (if \<not> containsAnyToken (reasoningOf ch) \<and> state t = stateIdle
      then Some (t, [Verbatim (promoteFinishReason c)])
      else processReasoning clock t (promoteFinishReason c) (reasoningOf ch))"
  by (simp add: processEvent_def promote_choice emit_def Let_def)

lemma Choices_upstreamChunk:
  "Choices (upstreamChunk r f) =
     \<lparr>Index = 0, Delta = zeroDelta\<lparr>Reasoning := r\<rparr>, FinishReason = f\<rparr> # []"
  by (simp add: upstreamChunk_def)

lemma finishField_Verbatim_promoted:
  "Choices c = ch # rest \<Longrightarrow> finishField (Verbatim (promoteFinishReason c)) = finishReasonOf ch"
  by (simp add: finishField_def chunkOf_def promote_choice)

subsection \<open>The loop\<close>

lemma pass_total: "Choices base = ch # rest \<Longrightarrow> \<exists>r. pass clock base t = Some r"
  by (cases "state t") (auto simp: pass_rules split: option.split)

lemma processLoop_total:
  assumes "Choices base = ch # rest"
  shows "\<exists>r. processLoop clock base t = Some r"
  using assms
proof (induction clock base t rule: processLoop.induct)
  case (1 clock base t)
  from pass_total [OF "1.prems", of clock t] obtain r where "pass clock base t = Some r"
    by blast
  then obtain b t1 o1 where p: "pass clock base t = Some (b, t1, o1)"
    by (cases r) auto
  show ?case
  proof (cases b)
    case False
    with p show ?thesis by (simp add: processLoop.simps [of clock base t])
  next
    case True
    with "1.IH" [OF p refl refl _ "1.prems"] obtain t2 o2
      where "processLoop clock base t1 = Some (t2, o2)"
      by auto
    with p True show ?thesis by (simp add: processLoop.simps [of clock base t])
  qed
qed

lemma processLoop_stop:
  "pass clock base t = Some (False, t', out) \<Longrightarrow> processLoop clock base t = Some (t', out)"
  by (simp add: processLoop.simps [of clock base t])

lemma processLoop_again:
  "pass clock base t = Some (True, t1, o1) \<Longrightarrow>
   processLoop clock base t = map_option (\<lambda>(t', o2). (t', o1 @ o2)) (processLoop clock base t1)"
  by (simp add: processLoop.simps [of clock base t] split: option.split)

lemma processLoop_induct [consumes 1, case_names stop again]:
  assumes "processLoop clock base t = Some (t', out)"
    and "\<And>t t' out. pass clock base t = Some (False, t', out) \<Longrightarrow> P t t' out"
    and "\<And>t t1 o1 t' o2. pass clock base t = Some (True, t1, o1) \<Longrightarrow>
           processLoop clock base t1 = Some (t', o2) \<Longrightarrow> P t1 t' o2 \<Longrightarrow> P t t' (o1 @ o2)"
  shows "P t t' out"
  using assms
proof (induction clock base t arbitrary: t' out rule: processLoop.induct)
  case (1 clock base t)
  note stop = "1.prems"(2) and again = "1.prems"(3)
  from "1.prems"(1) obtain b t1 o1 where p: "pass clock base t = Some (b, t1, o1)"
    by (auto simp: processLoop.simps [of clock base t] split: option.splits)
  show ?case
  proof (cases b)
    case False
    with p "1.prems"(1) have "t' = t1" "out = o1"
      by (simp_all add: processLoop_stop)
    with p False stop show ?thesis by simp
  next
    case True
    with p "1.prems"(1) obtain o2 where l: "processLoop clock base t1 = Some (t', o2)"
      and o: "out = o1 @ o2"
      by (auto simp: processLoop_again)
    from True have "P t1 t' o2"
      using "1.IH" [OF p refl refl _ l stop again] by simp
    with again p True l o show ?thesis by simp
  qed
qed

text \<open>Every chunk a pass appends is built from the base: the base's own fields, one
  choice with the index and the finish reason of the base's first choice.\<close>

lemma pass_built:
  assumes "Choices base = ch # rest" and "pass clock base t = Some (again, t', out)"
    and "e \<in> set out"
  shows "\<exists>d. e = ContentChunk (rebased base ch d) \<or> e = ToolCallHeader (rebased base ch d) \<or>
           e = ArgsDelta (rebased base ch d)"
  using assms
  by (cases "state t") (auto simp: pass_rules split: option.splits if_splits)

lemma processLoop_built:
  assumes "Choices base = ch # rest" and "processLoop clock base t = Some (t', out)"
    and "e \<in> set out"
  shows "\<exists>d. e = ContentChunk (rebased base ch d) \<or> e = ToolCallHeader (rebased base ch d) \<or>
           e = ArgsDelta (rebased base ch d)"
  using assms(2,3)
proof (induction arbitrary: e rule: processLoop_induct)
  case (stop t t' out)
  with pass_built [OF assms(1)] show ?case by blast
next
  case (again t t1 o1 t' o2)
  with pass_built [OF assms(1)] show ?case by (metis Un_iff set_append)
qed

subsection \<open>Searching for one byte\<close>

lemma strindex_char:
  "strindex s [x] = (if x \<in> set s then Some (length (takeWhile (\<lambda>c. c \<noteq> x) s)) else None)"
  by (induction s) auto

lemma drop_first_char:
  "x \<in> set s \<Longrightarrow> drop (length (takeWhile (\<lambda>c. c \<noteq> x) s) + 1) s = tl (dropWhile (\<lambda>c. c \<noteq> x) s)"
  by (induction s) auto

lemma strlastindex_char_None: "strlastindex s [x] = None \<longleftrightarrow> x \<notin> set s"
  by (induction s) (auto split: option.splits)

lemma strlastindex_char_Some:
  "strlastindex s [x] = Some i \<Longrightarrow> take i s = rev (tl (dropWhile (\<lambda>c. c \<noteq> x) (rev s)))"
proof (induction s arbitrary: i)
  case Nil
  then show ?case by simp
next
  case (Cons c cs)
  show ?case
  proof (cases "strlastindex cs [x]")
    case None
    then have nx: "x \<notin> set cs" by (simp add: strlastindex_char_None)
    with Cons.prems None have "i = 0" and "c = x"
      by (auto split: if_splits)
    moreover from nx have "dropWhile (\<lambda>c. c \<noteq> x) (rev cs) = []"
      by auto
    ultimately show ?thesis by (simp add: dropWhile_append)
  next
    case (Some j)
    then have inx: "x \<in> set cs"
      using strlastindex_char_None [of cs x] by auto
    from Some Cons.prems have i: "i = Suc j" by simp
    from inx have ne: "dropWhile (\<lambda>c. c \<noteq> x) (rev cs) \<noteq> []"
      by simp
    have "take j cs = rev (tl (dropWhile (\<lambda>c. c \<noteq> x) (rev cs)))"
      using Cons.IH [OF Some] .
    with i ne inx show ?thesis
      by (simp add: dropWhile_append tl_append split: list.splits)
  qed
qed

lemma parseFunctionName_spec:
  "parseFunctionName raw = beforeLastColon (afterFirstDot (TrimSpace raw))"
proof -
  have a: "(case strindex s ''.'' of Some i \<Rightarrow> drop (i + 1) s | None \<Rightarrow> s) = afterFirstDot s" for s
    using drop_first_char [of "CHR ''.''" s] by (simp add: strindex_char afterFirstDot_def)
  have b: "(case strlastindex s '':'' of Some i \<Rightarrow> take i s | None \<Rightarrow> s) = beforeLastColon s" for s
  proof (cases "strlastindex s '':''")
    case None
    then have "CHR '':'' \<notin> set s"
      by (simp add: strlastindex_char_None)
    then show ?thesis
      unfolding None by (simp add: beforeLastColon_def)
  next
    case (Some i)
    moreover from Some have "CHR '':'' \<in> set s"
      using strlastindex_char_None [of s "CHR '':''"] by auto
    ultimately show ?thesis
      by (simp add: beforeLastColon_def strlastindex_char_Some)
  qed
  show ?thesis
    by (simp add: parseFunctionName_def Let_def a b)
qed

subsection \<open>Trimming\<close>

lemma stripLeading_suffix: "suffix (stripLeading ws s) s"
proof (induction ws s rule: stripLeading.induct)
  case (1 ws s)
  show ?case
  proof (cases "List.find (\<lambda>w. w \<noteq> [] \<and> prefix w s) ws")
    case None
    then show ?thesis by (simp add: stripLeading.simps [of ws s])
  next
    case (Some w)
    with 1 have "suffix (stripLeading ws (drop (length w) s)) (drop (length w) s)"
      by simp
    then have "suffix (stripLeading ws (drop (length w) s)) s"
      using suffix_drop suffix_order.trans by blast
    with Some show ?thesis by (simp add: stripLeading.simps [of ws s])
  qed
qed

lemma stripLeading_done:
  "List.find (\<lambda>w. w \<noteq> [] \<and> prefix w (stripLeading ws s)) ws = None"
proof (induction ws s rule: stripLeading.induct)
  case (1 ws s)
  show ?case
  proof (cases "List.find (\<lambda>w. w \<noteq> [] \<and> prefix w s) ws")
    case None
    then show ?thesis by (simp add: stripLeading.simps [of ws s])
  next
    case (Some w)
    with 1 show ?thesis by (simp add: stripLeading.simps [of ws s])
  qed
qed

lemma stripLeading_fixed:
  "List.find (\<lambda>w. w \<noteq> [] \<and> prefix w s) ws = None \<Longrightarrow> stripLeading ws s = s"
  by (simp add: stripLeading.simps [of ws s])

lemma find_None_prefix:
  assumes "List.find (\<lambda>w. w \<noteq> [] \<and> prefix w s) ws = None" and "prefix u s"
  shows "List.find (\<lambda>w. w \<noteq> [] \<and> prefix w u) ws = None"
  using assms by (auto simp: find_None_iff dest: prefix_order.trans)

lemma TrimSpace_idem: "TrimSpace (TrimSpace s) = TrimSpace s"
proof -
  define u where "u = stripLeading spaceRunes s"
  define v where "v = stripLeading (map rev spaceRunes) (rev u)"
  have ts: "TrimSpace s = rev v"
    by (simp add: TrimSpace_def u_def v_def)
  have "suffix v (rev u)"
    unfolding v_def by (rule stripLeading_suffix)
  then have "prefix (rev v) u"
    by (metis rev_rev_ident suffix_to_prefix)
  moreover have "List.find (\<lambda>w. w \<noteq> [] \<and> prefix w u) spaceRunes = None"
    unfolding u_def by (rule stripLeading_done)
  ultimately have "List.find (\<lambda>w. w \<noteq> [] \<and> prefix w (rev v)) spaceRunes = None"
    by (rule find_None_prefix [rotated])
  then have 1: "stripLeading spaceRunes (rev v) = rev v"
    by (rule stripLeading_fixed)
  have "List.find (\<lambda>w. w \<noteq> [] \<and> prefix w v) (map rev spaceRunes) = None"
    unfolding v_def by (rule stripLeading_done)
  then have 2: "stripLeading (map rev spaceRunes) v = v"
    by (rule stripLeading_fixed)
  show ?thesis
    unfolding ts by (simp add: TrimSpace_def 1 2)
qed

lemma stripLeading_split: "\<exists>xs. set xs \<subseteq> set ws \<and> s = concat xs @ stripLeading ws s"
proof (induction ws s rule: stripLeading.induct)
  case (1 ws s)
  show ?case
  proof (cases "List.find (\<lambda>w. w \<noteq> [] \<and> prefix w s) ws")
    case None
    then have "stripLeading ws s = s"
      by (rule stripLeading_fixed)
    then show ?thesis
      by (intro exI [of _ "[]"]) simp
  next
    case (Some w)
    then have w: "w \<in> set ws" and p: "prefix w s"
      by (auto simp: find_Some_iff)
    from 1 [OF Some] obtain xs where xs: "set xs \<subseteq> set ws"
      and d: "drop (length w) s = concat xs @ stripLeading ws (drop (length w) s)"
      by blast
    from p have "s = w @ drop (length w) s"
      by (auto simp: prefix_def)
    with d have "s = concat (w # xs) @ stripLeading ws (drop (length w) s)"
      by simp
    moreover from Some have "stripLeading ws s = stripLeading ws (drop (length w) s)"
      by (simp add: stripLeading.simps [of ws s])
    ultimately have "s = concat (w # xs) @ stripLeading ws s"
      by simp
    with w xs show ?thesis
      by (intro exI [of _ "w # xs"]) simp
  qed
qed

lemma whiteSpace_concat: "set xs \<subseteq> set spaceRunes \<Longrightarrow> whiteSpace (concat xs)"
proof (induction xs)
  case Nil
  show ?case by (simp add: whiteSpace.simps)
next
  case (Cons w xs)
  then have "w \<in> set spaceRunes" and "whiteSpace (concat xs)"
    by simp_all
  then have "list_ex (\<lambda>v. if prefix v (w @ concat xs)
      then whiteSpace (drop (length v) (w @ concat xs)) else False) spaceRunes"
    unfolding list_ex_iff by (intro bexI [of _ w]) simp_all
  then show ?case
    by (simp add: whiteSpace.simps [of "w @ concat xs"])
qed

lemma TrimSpace_split: "\<exists>a b. raw = a @ TrimSpace raw @ b \<and> whiteSpace a \<and> whiteSpace b"
proof -
  define u where "u = stripLeading spaceRunes raw"
  define v where "v = stripLeading (map rev spaceRunes) (rev u)"
  have ts: "TrimSpace raw = rev v"
    by (simp add: TrimSpace_def u_def v_def)
  from stripLeading_split [of spaceRunes raw] obtain xs where xs: "set xs \<subseteq> set spaceRunes"
    and r: "raw = concat xs @ u"
    unfolding u_def by blast
  from stripLeading_split [of "map rev spaceRunes" "rev u"] obtain ys
    where ys: "set ys \<subseteq> set (map rev spaceRunes)" and ru: "rev u = concat ys @ v"
    unfolding v_def by blast
  from ru have "rev (rev u) = rev (concat ys @ v)"
    by simp
  then have u: "u = rev v @ concat (map rev (rev ys))"
    by (simp add: rev_concat)
  from ys have "set (map rev (rev ys)) \<subseteq> set spaceRunes"
    by auto
  then have "whiteSpace (concat (map rev (rev ys)))"
    by (rule whiteSpace_concat)
  moreover from xs have "whiteSpace (concat xs)"
    by (rule whiteSpace_concat)
  moreover from r u have "raw = concat xs @ TrimSpace raw @ concat (map rev (rev ys))"
    unfolding ts by simp
  ultimately show ?thesis
    by blast
qed

lemma TrimSpace_bare: "\<not> startsWithSpace (TrimSpace raw)" "\<not> endsWithSpace (TrimSpace raw)"
proof -
  define u where "u = stripLeading spaceRunes raw"
  define v where "v = stripLeading (map rev spaceRunes) (rev u)"
  have ts: "TrimSpace raw = rev v"
    by (simp add: TrimSpace_def u_def v_def)
  have "suffix v (rev u)"
    unfolding v_def by (rule stripLeading_suffix)
  then have "prefix (rev v) u"
    by (metis rev_rev_ident suffix_to_prefix)
  moreover have "List.find (\<lambda>w. w \<noteq> [] \<and> prefix w u) spaceRunes = None"
    unfolding u_def by (rule stripLeading_done)
  ultimately have "List.find (\<lambda>w. w \<noteq> [] \<and> prefix w (rev v)) spaceRunes = None"
    by (rule find_None_prefix [rotated])
  then show "\<not> startsWithSpace (TrimSpace raw)"
    using spaceRunes_nonempty by (auto simp: ts startsWithSpace_def list_ex_iff find_None_iff)
  have "List.find (\<lambda>w. w \<noteq> [] \<and> prefix w v) (map rev spaceRunes) = None"
    unfolding v_def by (rule stripLeading_done)
  then have "\<not> prefix (rev w) v" if "w \<in> set spaceRunes" for w
    using that spaceRunes_nonempty [OF that] by (auto simp: find_None_iff)
  then show "\<not> endsWithSpace (TrimSpace raw)"
    by (auto simp: ts endsWithSpace_def list_ex_iff suffix_to_prefix)
qed

lemma trimmedI:
  assumes "raw = a @ u @ b" and "whiteSpace a" and "whiteSpace b"
    and "\<not> startsWithSpace u" and "\<not> endsWithSpace u"
  shows "trimmed raw u"
proof -
  from assms(1) have "length a \<in> set [0..<Suc (length raw)]"
    by simp
  moreover from assms(1,2,3) have "whiteSpace (take (length a) raw) \<and>
      take (length u) (drop (length a) raw) = u \<and> whiteSpace (drop (length a + length u) raw)"
    by simp
  ultimately have "list_ex (\<lambda>n. whiteSpace (take n raw) \<and> take (length u) (drop n raw) = u \<and>
      whiteSpace (drop (n + length u) raw)) [0..<Suc (length raw)]"
    unfolding list_ex_iff by blast
  with assms(4,5) show ?thesis
    by (simp add: trimmed_def)
qed

lemma TrimSpace_trimmed: "trimmed raw (TrimSpace raw)"
proof -
  from TrimSpace_split [of raw] obtain a b where "raw = a @ TrimSpace raw @ b"
    and "whiteSpace a" and "whiteSpace b"
    by blast
  then show ?thesis
    using TrimSpace_bare [of raw] by (rule trimmedI)
qed

text \<open>No white-space rune begins another, none ends another, and no byte after the first
  of a rune is the first byte of a rune.\<close>

lemma spaceRunes_prefix_free:
  assumes "w \<in> set spaceRunes" and "w' \<in> set spaceRunes" and "prefix w w'"
  shows "w = w'"
proof -
  have "list_all (\<lambda>w. list_all (\<lambda>w'. prefix w w' \<longrightarrow> w = w') spaceRunes) spaceRunes"
    by code_simp
  with assms show ?thesis
    by (auto simp: list_all_iff)
qed

lemma spaceRunes_suffix_free:
  assumes "w \<in> set spaceRunes" and "w' \<in> set spaceRunes" and "prefix (rev w) (rev w')"
  shows "w = w'"
proof -
  have "list_all (\<lambda>w. list_all (\<lambda>w'. prefix (rev w) (rev w') \<longrightarrow> w = w') spaceRunes) spaceRunes"
    by code_simp
  with assms show ?thesis
    by (auto simp: list_all_iff)
qed

lemma spaceRunes_lead:
  assumes "w \<in> set spaceRunes"
  shows "hd w \<in> set leadBytes"
proof -
  have "list_all (\<lambda>w. hd w \<in> set leadBytes) spaceRunes"
    by code_simp
  with assms show ?thesis
    by (auto simp: list_all_iff)
qed

lemma spaceRunes_later:
  assumes "w \<in> set spaceRunes" and "c \<in> set (tl w)"
  shows "c \<notin> set leadBytes"
proof -
  have "list_all (\<lambda>w. list_all (\<lambda>c. c \<notin> set leadBytes) (tl w)) spaceRunes"
    by code_simp
  with assms show ?thesis
    by (auto simp: list_all_iff)
qed

lemma whiteSpace_parse: "whiteSpace s \<Longrightarrow> \<exists>xs. set xs \<subseteq> set spaceRunes \<and> s = concat xs"
proof (induction s rule: whiteSpace.induct)
  case (1 s)
  show ?case
  proof (cases "s = []")
    case True
    then show ?thesis
      by (intro exI [of _ "[]"]) simp
  next
    case False
    with "1.prems" obtain w where w: "w \<in> set spaceRunes" and p: "prefix w s"
      and ws: "whiteSpace (drop (length w) s)"
      by (auto simp: whiteSpace.simps [of s] list_ex_iff split: if_splits)
    from "1.IH" [OF w p ws] obtain xs where xs: "set xs \<subseteq> set spaceRunes"
      and d: "drop (length w) s = concat xs"
      by blast
    from p have "s = w @ drop (length w) s"
      by (auto simp: prefix_def)
    with d have "s = concat (w # xs)"
      by simp
    with w xs show ?thesis
      by (intro exI [of _ "w # xs"]) simp
  qed
qed

lemma stripLeading_concat:
  assumes pf: "\<And>w w'. w \<in> set ws \<Longrightarrow> w' \<in> set ws \<Longrightarrow> prefix w w' \<Longrightarrow> w = w'"
    and xs: "set xs \<subseteq> set ws"
  shows "stripLeading ws (concat xs @ s) = stripLeading ws s"
  using xs
proof (induction xs)
  case Nil
  show ?case by simp
next
  case (Cons w xs)
  then have w: "w \<in> set ws" and IH: "stripLeading ws (concat xs @ s) = stripLeading ws s"
    by simp_all
  show ?case
  proof (cases "w = []")
    case True
    with IH show ?thesis by simp
  next
    case False
    let ?t = "w @ concat xs @ s"
    from w False have "List.find (\<lambda>v. v \<noteq> [] \<and> prefix v ?t) ws \<noteq> None"
      by (auto simp: find_None_iff)
    then obtain v where f: "List.find (\<lambda>v. v \<noteq> [] \<and> prefix v ?t) ws = Some v"
      by auto
    then have v: "v \<in> set ws" and pv: "prefix v ?t"
      by (auto simp: find_Some_iff)
    have "prefix w ?t"
      by simp
    with pv have "prefix v w \<or> prefix w v"
      by (rule prefix_same_cases)
    with pf [OF v w] pf [OF w v] have "v = w"
      by auto
    with f have "stripLeading ws ?t = stripLeading ws (concat xs @ s)"
      by (simp add: stripLeading.simps [of ws ?t])
    with IH show ?thesis
      by simp
  qed
qed

lemma startsWithSpace_append:
  assumes "u \<noteq> []" and "\<not> startsWithSpace u" and "whiteSpace b"
  shows "\<not> startsWithSpace (u @ b)"
proof
  assume "startsWithSpace (u @ b)"
  then obtain w where w: "w \<in> set spaceRunes" and p: "prefix w (u @ b)"
    by (auto simp: startsWithSpace_def list_ex_iff)
  from assms(2) w have np: "\<not> prefix w u"
    by (auto simp: startsWithSpace_def list_ex_iff)
  from p obtain r where r: "u @ b = w @ r"
    by (auto simp: prefix_def)
  with np obtain y where y: "w = u @ y" and yb: "b = y @ r"
    by (auto simp: append_eq_append_conv2 prefix_def)
  from np y have yne: "y \<noteq> []"
    by auto
  with yb have bne: "b \<noteq> []"
    by simp
  with assms(3) obtain w' where w': "w' \<in> set spaceRunes" and pb: "prefix w' b"
    by (auto simp: whiteSpace.simps [of b] list_ex_iff split: if_splits)
  from w' have "w' \<noteq> []"
    by (rule spaceRunes_nonempty)
  with pb bne have "hd w' = hd b"
    by (cases w'; cases b) auto
  also from yb yne have "hd b = hd y"
    by simp
  finally have "hd y \<in> set leadBytes"
    using spaceRunes_lead [OF w'] by simp
  moreover from y assms(1) yne have "hd y \<in> set (tl w)"
    by (cases u; cases y) auto
  ultimately show False
    using spaceRunes_later [OF w] by blast
qed

lemma stripLeading_Nil: "stripLeading ws [] = []"
  by (rule stripLeading_fixed) (auto simp: find_None_iff)

lemma TrimSpace_unique:
  assumes raw: "raw = a @ u @ b" and a: "whiteSpace a" and b: "whiteSpace b"
    and s: "\<not> startsWithSpace u" and e: "\<not> endsWithSpace u"
  shows "TrimSpace raw = u"
proof (cases "u = []")
  case True
  with raw a b whiteSpace_parse [of a] whiteSpace_parse [of b]
  obtain xs ys where "set xs \<subseteq> set spaceRunes" "set ys \<subseteq> set spaceRunes"
    and "raw = concat (xs @ ys)"
    by auto
  then have "stripLeading spaceRunes raw = stripLeading spaceRunes []"
    using stripLeading_concat [of spaceRunes "xs @ ys" "[]"] spaceRunes_prefix_free
    by simp
  also have "\<dots> = []"
    by (rule stripLeading_Nil)
  finally show ?thesis
    using True by (simp add: TrimSpace_def stripLeading_Nil)
next
  case False
  from a whiteSpace_parse [of a] obtain xs where xs: "set xs \<subseteq> set spaceRunes"
    and ax: "a = concat xs"
    by auto
  from b whiteSpace_parse [of b] obtain ys where ys: "set ys \<subseteq> set spaceRunes"
    and bys: "b = concat ys"
    by auto
  have "stripLeading spaceRunes raw = stripLeading spaceRunes (u @ b)"
    unfolding raw ax using stripLeading_concat [OF _ xs] spaceRunes_prefix_free by blast
  also have "\<dots> = u @ b"
  proof (rule stripLeading_fixed)
    from startsWithSpace_append [OF False s b]
    show "List.find (\<lambda>w. w \<noteq> [] \<and> prefix w (u @ b)) spaceRunes = None"
      by (auto simp: find_None_iff startsWithSpace_def list_ex_iff)
  qed
  finally have front: "stripLeading spaceRunes raw = u @ b" .
  have rb: "rev b = concat (map rev (rev ys))"
    by (simp add: bys rev_concat)
  have rys: "set (map rev (rev ys)) \<subseteq> set (map rev spaceRunes)"
    using ys by auto
  have pf: "w = w'"
    if "w \<in> set (map rev spaceRunes)" "w' \<in> set (map rev spaceRunes)" "prefix w w'"
    for w w'
  proof -
    from that(1,2) obtain v v' where v: "v \<in> set spaceRunes" "w = rev v"
      and v': "v' \<in> set spaceRunes" "w' = rev v'"
      by auto
    with that(3) spaceRunes_suffix_free [of v v'] show ?thesis
      by simp
  qed
  have "stripLeading (map rev spaceRunes) (rev (u @ b))
      = stripLeading (map rev spaceRunes) (rev u)"
    using stripLeading_concat [OF pf rys, of "rev u"] by (simp add: rb)
  also have "\<dots> = rev u"
  proof (rule stripLeading_fixed)
    from e show "List.find (\<lambda>w. w \<noteq> [] \<and> prefix w (rev u)) (map rev spaceRunes) = None"
      by (auto simp: find_None_iff endsWithSpace_def list_ex_iff suffix_to_prefix)
  qed
  finally show ?thesis
    by (simp add: TrimSpace_def front)
qed

lemma trimmed_iff: "trimmed raw u \<longleftrightarrow> u = TrimSpace raw"
proof
  assume t: "trimmed raw u"
  then have "list_ex (\<lambda>n. whiteSpace (take n raw) \<and> take (length u) (drop n raw) = u \<and>
      whiteSpace (drop (n + length u) raw)) [0..<Suc (length raw)]"
    by (simp add: trimmed_def)
  then obtain n where a: "whiteSpace (take n raw)" and m: "take (length u) (drop n raw) = u"
    and b: "whiteSpace (drop (n + length u) raw)"
    unfolding list_ex_iff by blast
  have "drop n raw = take (length u) (drop n raw) @ drop (length u) (drop n raw)"
    by (simp only: append_take_drop_id)
  moreover have "drop (length u) (drop n raw) = drop (n + length u) raw"
    by (simp add: add.commute)
  ultimately have d: "drop n raw = u @ drop (n + length u) raw"
    by (simp only: m)
  have "raw = take n raw @ drop n raw"
    by simp
  also note d
  finally have "raw = take n raw @ u @ drop (n + length u) raw" .
  from TrimSpace_unique [OF this a b] t show "u = TrimSpace raw"
    by (simp add: trimmed_def)
next
  assume "u = TrimSpace raw"
  then show "trimmed raw u"
    by (simp add: TrimSpace_trimmed)
qed

subsection \<open>Decimal digits\<close>

lemma digit_simps:
  "digit 0 = CHR ''0''" "digit 1 = CHR ''1''" "digit 2 = CHR ''2''" "digit 3 = CHR ''3''"
  "digit 4 = CHR ''4''" "digit 5 = CHR ''5''" "digit 6 = CHR ''6''" "digit 7 = CHR ''7''"
  "digit 8 = CHR ''8''" "digit 9 = CHR ''9''" "digit (Suc 0) = CHR ''1''"
  by code_simp+

lemmas itoa_rules = itoa_def digits.simps digit_simps

subsection \<open>C8: the tool-call id and the function name\<close>

text \<open>
  C8. When the rewriter, reading an identifier, finds the argument delimiter, the bytes
  of the buffer before it are the raw identifier. The header it emits carries as id the
  trimmed identifier itself when that begins with \<open>call_\<close>, and otherwise
  \<open>call_\<close>, the tool index, \<open>_\<close> and the clock's milliseconds; its function name is the
  trimmed identifier after its first \<open>.\<close> (if any) and then before its last \<open>:\<close>
  (if any). The two parsing functions do the same on any raw identifier. The trimmed
  identifier \<open>TrimSpace raw\<close> is the raw identifier without its surrounding white space,
  and the only text that is: \<open>raw\<close> is the trimmed identifier between two runs of
  white-space runes, and the trimmed identifier neither begins nor ends with one. So an
  identifier \<open>call_123\<close> between a space and a tab and a line end is used as it is, and
  \<open>functions.bash:15\<close> between white space (every ASCII white-space byte, the no-break
  space and other Unicode spaces) gives the name \<open>bash\<close> and a synthesized id; white
  space inside an identifier stays, and a zero-width space, which is not white space,
  stays; at tool index 12 and clock reading 1700000000000 the identifier
  \<open>my.pkg.task:3\<close> gets the id \<open>call_12_1700000000000\<close>. Without white space \<open>functions.bash:15\<close> gives \<open>bash\<close>, \<open>my.pkg.task:3\<close>
  gives \<open>pkg.task\<close> and \<open>do_it\<close> gives \<open>do_it\<close>.
\<close>

theorem identifier_parsing:
  assumes "state t = stateReadingID"
    and "strindex (buf t) tokArgBegin = Some k"
    and "Choices base = ch # rest"
  shows "(\<exists>t' e tc. pass clock base t = Some (True, t', [e]) \<and> headerOf e = Some tc \<and>
            CallID tc =
              (if prefix ''call_'' (TrimSpace (take k (buf t))) then TrimSpace (take k (buf t))
               else ''call_'' @ itoa (toolIndex t) @ ''_'' @ itoa (clock (toolIndex t))) \<and>
            Name (Function tc) = beforeLastColon (afterFirstDot (TrimSpace (take k (buf t)))) \<and>
            CallIndex tc = toolIndex t \<and> currentID t' = CallID tc) \<and>
         fst (parseToolCallID millis raw index) =
           (if prefix ''call_'' (TrimSpace raw) then TrimSpace raw
            else ''call_'' @ itoa index @ ''_'' @ itoa millis) \<and>
         parseFunctionName raw = beforeLastColon (afterFirstDot (TrimSpace raw)) \<and>
         (\<forall>u. trimmed raw u \<longleftrightarrow> u = TrimSpace raw) \<and>
         fst (parseToolCallID 42 ([CHR 0x20, CHR 0x09] @ ''call_123'' @ [CHR 0x0D, CHR 0x0A]) 0)
           = ''call_123'' \<and>
         fst (parseToolCallID 42 '' functions.bash:15 '' 3) = ''call_3_42'' \<and>
         fst (parseToolCallID 1700000000000 '' my.pkg.task:3 '' 12)
           = ''call_12_1700000000000'' \<and>
         parseFunctionName
           ([CHR 0x09, CHR 0x0A, CHR 0x0B, CHR 0x0C, CHR 0x0D, CHR 0x20, CHR 0xC2, CHR 0x85,
             CHR 0xC2, CHR 0xA0] @ ''functions.bash:15'' @
            [CHR 0xE1, CHR 0x9A, CHR 0x80, CHR 0xE2, CHR 0x80, CHR 0x80, CHR 0xE2, CHR 0x80,
             CHR 0x8A, CHR 0xE2, CHR 0x80, CHR 0xA8, CHR 0xE2, CHR 0x80, CHR 0xA9, CHR 0xE2,
             CHR 0x80, CHR 0xAF, CHR 0xE2, CHR 0x81, CHR 0x9F, CHR 0xE3, CHR 0x80, CHR 0x80])
           = ''bash'' \<and>
         parseFunctionName '' do it '' = ''do it'' \<and>
         parseFunctionName ([CHR 0xE2, CHR 0x80, CHR 0x8B] @ ''x'' @ [CHR 0x20])
           = [CHR 0xE2, CHR 0x80, CHR 0x8B] @ ''x'' \<and>
         parseFunctionName ''functions.bash:15'' = ''bash'' \<and>
         parseFunctionName ''my.pkg.task:3'' = ''pkg.task'' \<and>
         parseFunctionName ''do_it'' = ''do_it''"
proof -
  have id: "fst (parseToolCallID m r i) =
      (if prefix ''call_'' (TrimSpace r) then TrimSpace r
       else ''call_'' @ itoa i @ ''_'' @ itoa m)" for m r i
    by (simp add: parseToolCallID_def Let_def)
  have ex1: "parseFunctionName ''functions.bash:15'' = ''bash''"
    by code_simp
  have ex2: "parseFunctionName ''my.pkg.task:3'' = ''pkg.task''"
    by code_simp
  have ex3: "parseFunctionName ''do_it'' = ''do_it''"
    by code_simp
  have ws1: "fst (parseToolCallID 42 ([CHR 0x20, CHR 0x09] @ ''call_123'' @ [CHR 0x0D, CHR 0x0A]) 0)
      = ''call_123''"
    by code_simp
  have ws2: "fst (parseToolCallID 42 '' functions.bash:15 '' 3) = ''call_3_42''"
    by code_simp
  have "TrimSpace '' my.pkg.task:3 '' = ''my.pkg.task:3''"
    by code_simp
  then have ws6: "fst (parseToolCallID 1700000000000 '' my.pkg.task:3 '' 12)
      = ''call_12_1700000000000''"
    by (simp add: parseToolCallID_def Let_def itoa_rules)
  have ws3: "parseFunctionName
      ([CHR 0x09, CHR 0x0A, CHR 0x0B, CHR 0x0C, CHR 0x0D, CHR 0x20, CHR 0xC2, CHR 0x85,
        CHR 0xC2, CHR 0xA0] @ ''functions.bash:15'' @
       [CHR 0xE1, CHR 0x9A, CHR 0x80, CHR 0xE2, CHR 0x80, CHR 0x80, CHR 0xE2, CHR 0x80,
        CHR 0x8A, CHR 0xE2, CHR 0x80, CHR 0xA8, CHR 0xE2, CHR 0x80, CHR 0xA9, CHR 0xE2,
        CHR 0x80, CHR 0xAF, CHR 0xE2, CHR 0x81, CHR 0x9F, CHR 0xE3, CHR 0x80, CHR 0x80])
      = ''bash''"
    by code_simp
  have ws4: "parseFunctionName '' do it '' = ''do it''"
    by code_simp
  have ws5: "parseFunctionName ([CHR 0xE2, CHR 0x80, CHR 0x8B] @ ''x'' @ [CHR 0x20])
      = [CHR 0xE2, CHR 0x80, CHR 0x8B] @ ''x''"
    by code_simp
  have tr: "\<forall>u. trimmed raw u \<longleftrightarrow> u = TrimSpace raw"
    by (simp add: trimmed_iff)
  have "headerOf (ToolCallHeader (rebased base ch (zeroDelta\<lparr>ToolCalls := [tc]\<rparr>))) = Some tc" for tc
    by (simp add: headerOf_def toolCallOf_def)
  then have "\<exists>t' e tc. pass clock base t = Some (True, t', [e]) \<and> headerOf e = Some tc \<and>
      CallID tc =
        (if prefix ''call_'' (TrimSpace (take k (buf t))) then TrimSpace (take k (buf t))
         else ''call_'' @ itoa (toolIndex t) @ ''_'' @ itoa (clock (toolIndex t))) \<and>
      Name (Function tc) = beforeLastColon (afterFirstDot (TrimSpace (take k (buf t)))) \<and>
      CallIndex tc = toolIndex t \<and> currentID t' = CallID tc"
    using pass_ReadingID_found [OF assms, of clock]
    by (simp add: id parseFunctionName_spec TrimSpace_idem)
  with id [of millis raw index] ex1 ex2 ex3 ws1 ws2 ws3 ws4 ws5 ws6 tr show ?thesis
    by (simp only: parseFunctionName_spec [of raw] simp_thms)
qed

theorem identifier_parsing_witness:
  "state (transformerIn stateReadingID '' functions.bash:15 <|tool_call_argument_begin|>{}'')
     = stateReadingID \<and>
   strindex (buf (transformerIn stateReadingID '' functions.bash:15 <|tool_call_argument_begin|>{}''))
     tokArgBegin = Some 19 \<and>
   (\<exists>t' e tc.
      pass (\<lambda>i. 42) (upstreamChunk [] None)
        (transformerIn stateReadingID '' functions.bash:15 <|tool_call_argument_begin|>{}'')
        = Some (True, t', [e]) \<and>
      headerOf e = Some tc \<and> CallID tc = ''call_0_42'' \<and>
      Name (Function tc) = ''bash'' \<and> CallIndex tc = 0) \<and>
   trimmed '' call_7 '' ''call_7'' \<and> \<not> trimmed '' call_7 '' '' call_7 '' \<and>
   fst (parseToolCallID 42 '' call_7 '' 0) = ''call_7''"
proof -
  let ?t = "transformerIn stateReadingID '' functions.bash:15 <|tool_call_argument_begin|>{}''"
  have st: "state ?t = stateReadingID"
    by (simp add: transformerIn_def)
  have ix: "strindex (buf ?t) tokArgBegin = Some 19"
    by (simp add: transformerIn_def tokArgBegin_def)
  have ch: "Choices (upstreamChunk [] None)
      = \<lparr>Index = 0, Delta = zeroDelta\<lparr>Reasoning := []\<rparr>, FinishReason = None\<rparr> # []"
    by (simp add: upstreamChunk_def)
  have raw: "TrimSpace (take 19 (buf ?t)) = ''functions.bash:15''"
    unfolding transformerIn_def by code_simp
  have nm: "beforeLastColon (afterFirstDot ''functions.bash:15'') = ''bash''"
    by (simp add: beforeLastColon_def afterFirstDot_def)
  have i0: "itoa 0 = ''0''"
    by code_simp
  have i1: "itoa 42 = ''42''"
    by code_simp
  have ti: "toolIndex ?t = 0"
    by (simp add: transformerIn_def)
  have c7: "TrimSpace '' call_7 '' = ''call_7''"
    by code_simp
  note inst = identifier_parsing [OF st ix ch, where clock = "\<lambda>i. 42" and millis = 42
      and raw = "'' call_7 ''" and index = 0]
  from inst have "\<exists>t' e tc.
      pass (\<lambda>i. 42) (upstreamChunk [] None) ?t = Some (True, t', [e]) \<and>
      headerOf e = Some tc \<and> CallID tc = ''call_0_42'' \<and>
      Name (Function tc) = ''bash'' \<and> CallIndex tc = 0"
    unfolding raw nm ti i0 i1 by auto
  moreover from inst have "\<forall>u. trimmed '' call_7 '' u \<longleftrightarrow> u = ''call_7''"
    unfolding c7 by (elim conjE)
  then have "trimmed '' call_7 '' ''call_7'' \<and> \<not> trimmed '' call_7 '' '' call_7 ''"
    by simp
  moreover from inst have "fst (parseToolCallID 42 '' call_7 '' 0) = ''call_7''"
    unfolding c7 by simp
  ultimately show ?thesis
    using st ix by blast
qed

subsection \<open>C7: the passthrough of an idle transformer\<close>

lemma not_containsAnyToken_Nil [simp]: "\<not> containsAnyToken []"
  by (simp add: containsAnyToken_def contains_def)

lemma processEvent_idle:
  assumes "state t = stateIdle" and "\<not> containsAnyToken (reasoningText c)"
  shows "processEvent clock t (Decoded c) = Some (t, [Verbatim (promoteFinishReason c)])"
proof (cases "Choices c")
  case Nil
  then show ?thesis by (simp add: processEvent_no_choice promote_no_choice)
next
  case (Cons ch rest)
  with assms show ?thesis by (simp add: processEvent_choice reasoningText_def)
qed

lemma deltaOf_promoted:
  "deltaOf (promoteFinishReason c) = (deltaOf c)\<lparr>DeltaFinishReason := None\<rparr>"
  by (cases "Choices c") (simp_all add: deltaOf_def promote_no_choice promote_choice zeroDelta_def)

lemma promote_unchanged:
  "DeltaFinishReason (deltaOf c) = None \<Longrightarrow> promoteFinishReason c = c"
  by (cases "Choices c") (simp_all add: deltaOf_def promoteFinishReason_def)

text \<open>
  C7, as the claim states it, fails on the last chunk of a stream: a chunk whose delta
  holds the \<^verbatim>\<open>finish_reason\<close> is emitted, by an idle transformer, with the finish
  reason moved out of the delta.
\<close>

theorem idle_passthrough_counterexample:
  "state NewToolCallTransformer = stateIdle \<and>
   \<not> contains (reasoningText (finishChunk ''stop'')) ''<|tool_call'' \<and>
   (\<exists>c'. processEvent (\<lambda>i. 42) NewToolCallTransformer (Decoded (finishChunk ''stop''))
            = Some (NewToolCallTransformer, [Verbatim c']) \<and>
         deltaOf c' \<noteq> deltaOf (finishChunk ''stop''))"
proof -
  have idle: "state NewToolCallTransformer = stateIdle"
    by (simp add: NewToolCallTransformer_def)
  have tx: "reasoningText (finishChunk ''stop'') = []"
    by (simp add: reasoningText_def finishChunk_def reasoningOf_def zeroDelta_def)
  have "deltaOf (promoteFinishReason (finishChunk ''stop'')) \<noteq> deltaOf (finishChunk ''stop'')"
    by (simp add: deltaOf_promoted) (simp add: deltaOf_def finishChunk_def zeroDelta_def)
  with processEvent_idle [OF idle, of "finishChunk ''stop''" "\<lambda>i. 42"] idle tx show ?thesis
    by (simp add: contains_def)
qed

text \<open>
  C7, amended. A chunk that arrives while the transformer is idle and whose reasoning text
  has no \<open><|tool_call\<close> is emitted as exactly one chunk, and the state is left as it was.
  The chunk emitted is the upstream chunk with a \<^verbatim>\<open>finish_reason\<close> found inside the
  delta of the first choice moved onto that choice: its delta is the upstream delta
  without that field, and nothing changes at all when the delta holds no finish reason.
\<close>

theorem idle_passthrough:
  assumes "state t = stateIdle" and "\<not> containsAnyToken (reasoningText c)"
  shows "processEvent clock t (Decoded c) = Some (t, [Verbatim (promoteFinishReason c)]) \<and>
         deltaOf (promoteFinishReason c) = (deltaOf c)\<lparr>DeltaFinishReason := None\<rparr> \<and>
         (DeltaFinishReason (deltaOf c) = None \<longrightarrow> promoteFinishReason c = c)"
  using assms by (simp add: processEvent_idle deltaOf_promoted promote_unchanged)

theorem idle_passthrough_witness:
  "state NewToolCallTransformer = stateIdle \<and>
   \<not> containsAnyToken (reasoningText (upstreamChunk ''Here is the result: '' None)) \<and>
   DeltaFinishReason (deltaOf (upstreamChunk ''Here is the result: '' None)) = None \<and>
   processEvent (\<lambda>i. 42) NewToolCallTransformer
       (Decoded (upstreamChunk ''Here is the result: '' None))
     = Some (NewToolCallTransformer, [Verbatim (upstreamChunk ''Here is the result: '' None)])"
proof -
  let ?c = "upstreamChunk ''Here is the result: '' None"
  have idle: "state NewToolCallTransformer = stateIdle"
    by (simp add: NewToolCallTransformer_def)
  have tx: "\<not> containsAnyToken (reasoningText ?c)"
    by (simp add: reasoningText_def upstreamChunk_def reasoningOf_def zeroDelta_def
        containsAnyToken_def contains_def)
  have nofin: "DeltaFinishReason (deltaOf ?c) = None"
    by (simp add: deltaOf_def upstreamChunk_def zeroDelta_def)
  from idle_passthrough [OF idle tx, of "\<lambda>i. 42"] nofin idle tx show ?thesis
    by simp
qed

subsection \<open>C6: a stream without markers\<close>

lemma transformAll_passthrough:
  assumes "state t = stateIdle" and "\<forall>c\<in>set cs. \<not> containsAnyToken (reasoningText c)"
  shows "transformAll clock t (map (\<lambda>c. Data (Decoded c)) cs)
           = Some (t, map (\<lambda>c. Verbatim (promoteFinishReason c)) cs)"
  using assms(2)
proof (induction cs)
  case Nil
  show ?case by simp
next
  case (Cons c cs)
  then show ?case
    by (simp add: Transform_def processEvent_idle [OF assms(1)])
qed

lemma reasoningText_promoted [simp]: "reasoningText (promoteFinishReason c) = reasoningText c"
  by (cases "Choices c") (simp_all add: reasoningText_def promote_no_choice promote_choice)

lemma Content_promoted [simp]: "Content (deltaOf (promoteFinishReason c)) = Content (deltaOf c)"
  by (simp add: deltaOf_promoted)

text \<open>
  C6, as the claim states it, fails on the simplest stream: one chunk whose reasoning text
  is \<open>hi\<close>, which holds no delimiter. The chunk is emitted as it came, the text still in
  its reasoning field, and the content fields of the output are empty.
\<close>

theorem content_conservation_counterexample:
  "\<not> contains ''hi'' tokSectionBegin \<and> \<not> contains ''hi'' tokCallBegin \<and>
   \<not> contains ''hi'' tokArgBegin \<and> \<not> contains ''hi'' tokCallEnd \<and>
   \<not> contains ''hi'' tokSectionEnd \<and>
   (\<exists>t out. transformAll (\<lambda>i. 42) NewToolCallTransformer
               [Data (Decoded (upstreamChunk ''hi'' None))] = Some (t, out) \<and>
            concat (map contentField out) = [] \<and>
            concat (map reasoningText [upstreamChunk ''hi'' None]) = ''hi'')"
proof -
  have idle: "state NewToolCallTransformer = stateIdle"
    by (simp add: NewToolCallTransformer_def)
  have tx: "reasoningText (upstreamChunk ''hi'' None) = ''hi''"
    by (simp add: reasoningText_def upstreamChunk_def reasoningOf_def zeroDelta_def)
  have "\<not> containsAnyToken (reasoningText (upstreamChunk ''hi'' None))"
    unfolding tx by (simp add: containsAnyToken_def contains_def)
  then have "transformAll (\<lambda>i. 42) NewToolCallTransformer
      [Data (Decoded (upstreamChunk ''hi'' None))]
      = Some (NewToolCallTransformer, [Verbatim (promoteFinishReason (upstreamChunk ''hi'' None))])"
    using transformAll_passthrough [OF idle, of "[upstreamChunk ''hi'' None]" "\<lambda>i. 42"] by simp
  moreover have "contentField (Verbatim (promoteFinishReason (upstreamChunk ''hi'' None))) = []"
    by (simp add: contentField_def chunkOf_def) (simp add: deltaOf_def upstreamChunk_def zeroDelta_def)
  ultimately show ?thesis
    by (simp add: tx contains_def token_defs)
qed

text \<open>
  C6, amended. When no chunk of an upstream stream has \<open><|tool_call\<close> in its reasoning
  text, a fresh transformer emits every chunk as it came (a finish reason in the delta
  moved onto the choice) and stays idle. The text therefore stays where it was: the
  reasoning texts of the emitted chunks, in order, are those of the upstream chunks, and
  so are the content fields.
\<close>

theorem passthrough_conservation:
  assumes "\<forall>c\<in>set cs. \<not> containsAnyToken (reasoningText c)"
  shows "\<exists>out. transformAll clock NewToolCallTransformer (map (\<lambda>c. Data (Decoded c)) cs)
                  = Some (NewToolCallTransformer, out) \<and>
               out = map (\<lambda>c. Verbatim (promoteFinishReason c)) cs \<and>
               concat (map reasoningField out) = concat (map reasoningText cs) \<and>
               concat (map contentField out) = concat (map (\<lambda>c. Content (deltaOf c)) cs)"
proof -
  have idle: "state NewToolCallTransformer = stateIdle"
    by (simp add: NewToolCallTransformer_def)
  show ?thesis
    using transformAll_passthrough [OF idle assms, of clock]
    by (simp add: reasoningField_def contentField_def chunkOf_def comp_def)
qed

theorem passthrough_conservation_witness:
  "\<not> containsAnyToken (reasoningText (upstreamChunk ''if x <'' None)) \<and>
   \<not> containsAnyToken (reasoningText (upstreamChunk '' 5 then'' None)) \<and>
   (\<exists>out. transformAll (\<lambda>i. 42) NewToolCallTransformer
       [Data (Decoded (upstreamChunk ''if x <'' None)),
        Data (Decoded (upstreamChunk '' 5 then'' None))] = Some (NewToolCallTransformer, out) \<and>
     concat (map reasoningField out) = ''if x < 5 then'' \<and>
     concat (map contentField out) = [])"
proof -
  have t1: "reasoningText (upstreamChunk r None) = r" for r
    by (simp add: reasoningText_def upstreamChunk_def reasoningOf_def zeroDelta_def)
  have c1: "Content (deltaOf (upstreamChunk r None)) = []" for r
    by (simp add: deltaOf_def upstreamChunk_def zeroDelta_def)
  have n1: "\<not> containsAnyToken ''if x <''" and n2: "\<not> containsAnyToken '' 5 then''"
    by (simp_all add: containsAnyToken_def contains_def)
  have "\<forall>c\<in>set [upstreamChunk ''if x <'' None, upstreamChunk '' 5 then'' None].
      \<not> containsAnyToken (reasoningText c)"
    by (simp add: t1 n1 n2)
  from passthrough_conservation [OF this, of "\<lambda>i. 42"] n1 n2 show ?thesis
    by (simp add: t1 c1)
qed

subsection \<open>Runs on concrete streams\<close>

lemma processEvent_upstream:
  "processEvent clock t (Decoded (upstreamChunk r f)) =
     (if \<not> containsAnyToken r \<and> state t = stateIdle
      then Some (t, [Verbatim (upstreamChunk r f)])
      else processReasoning clock t (upstreamChunk r f) r)"
proof -
  have "promoteFinishReason (upstreamChunk r f) = upstreamChunk r f"
    by (simp add: promoteFinishReason_def upstreamChunk_def zeroDelta_def)
  moreover have "reasoningOf \<lparr>Index = 0, Delta = zeroDelta\<lparr>Reasoning := r\<rparr>, FinishReason = f\<rparr> = r"
    by (simp add: reasoningOf_def zeroDelta_def)
  ultimately show ?thesis
    by (simp add: processEvent_choice [OF Choices_upstreamChunk])
qed

lemma Choices_finishChunk:
  "Choices (finishChunk f) =
     \<lparr>Index = 0, Delta = zeroDelta\<lparr>DeltaFinishReason := Some f\<rparr>, FinishReason = None\<rparr> # []"
  by (simp add: finishChunk_def)

lemma processEvent_finishChunk:
  "processEvent clock t (Decoded (finishChunk f)) =
     (if state t = stateIdle
      then Some (t, [Verbatim (promoteFinishReason (finishChunk f))])
      else processReasoning clock t (promoteFinishReason (finishChunk f)) [])"
proof -
  have "reasoningOf \<lparr>Index = 0, Delta = zeroDelta\<lparr>DeltaFinishReason := Some f\<rparr>,
      FinishReason = None\<rparr> = []"
    by (simp add: reasoningOf_def zeroDelta_def)
  then show ?thesis
    by (simp add: processEvent_choice [OF Choices_finishChunk])
qed

lemma bash_id: "fst (parseToolCallID 42 (TrimSpace ''bash:1'') 0) = ''call_0_42''"
  by code_simp

lemma bash_name: "parseFunctionName (TrimSpace ''bash:1'') = ''bash''"
  by code_simp

text \<open>The rules that evaluate a run on chunks built by \<open>upstreamChunk\<close>.\<close>

lemmas run_rules =
  transformAll.simps Transform_def processEvent_upstream processReasoning_def
  processLoop.simps pass_Idle [OF _ Choices_upstreamChunk]
  pass_InSection [OF _ Choices_upstreamChunk] pass_ReadingID [OF _ Choices_upstreamChunk]
  pass_ReadingArgs [OF _ Choices_upstreamChunk] pass_Trailing token_defs sectionEnd_def
  NewToolCallTransformer_def readingArgs0_def sectionOpening_def containsAnyToken_def
  contains_def bash_id bash_name

text \<open>The opening of a section and of its first call leaves a fresh transformer reading
  arguments, after one header chunk.\<close>

lemma opening_run:
  "\<exists>e. processEvent (\<lambda>i. 42) NewToolCallTransformer (Decoded (upstreamChunk sectionOpening None))
          = Some (readingArgs0, [e]) \<and>
       map_option (\<lambda>tc. (CallID tc, CallType tc, CallIndex tc, Name (Function tc),
           Arguments (Function tc))) (headerOf e)
         = Some (''call_0_42'', ''function'', 0, ''bash'', []) \<and>
       finishField e = None"
  by (simp add: run_rules headerOf_def toolCallOf_def finishField_def chunkOf_def)

subsection \<open>C5: text that arrives after the section\<close>

text \<open>
  C5 fails on the code. A fresh transformer is fed a whole section with one call, which
  leaves it in \<open>stateTrailing\<close>, and then a chunk whose reasoning text is \<open> Done!\<close>.
  The second chunk emits nothing: the text is appended to the buffer and stays there.
\<close>

theorem trailing_text_dropped:
  "\<exists>t e.
     processEvent (\<lambda>i. 42) NewToolCallTransformer
       (Decoded (upstreamChunk
          ''<|tool_calls_section_begin|><|tool_call_begin|>bash:1<|tool_call_argument_begin|><|tool_call_end|><|tool_calls_section_end|>''
          None)) = Some (t, [e]) \<and>
     state t = stateTrailing \<and> buf t = [] \<and>
     processEvent (\<lambda>i. 42) t (Decoded (upstreamChunk '' Done!'' None))
       = Some (t\<lparr>buf := '' Done!''\<rparr>, [])"
  by (simp add: run_rules)

subsection \<open>C10: the finish reason on rewritten chunks\<close>

lemma processReasoning_built:
  assumes "Choices base = ch # rest"
  shows "\<exists>t' out. processReasoning clock t base text = Some (t', out) \<and>
           (\<forall>e\<in>set out. \<exists>d. e = ContentChunk (rebased base ch d) \<or>
              e = ToolCallHeader (rebased base ch d) \<or> e = ArgsDelta (rebased base ch d))"
proof -
  from processLoop_total [OF assms, of clock "t\<lparr>buf := buf t @ text\<rparr>"]
  obtain t' out where l: "processLoop clock base (t\<lparr>buf := buf t @ text\<rparr>) = Some (t', out)"
    by auto
  with processLoop_built [OF assms l] show ?thesis
    by (auto simp: processReasoning_def)
qed

lemma processEvent_rewrite:
  "Choices c = ch # rest \<Longrightarrow> containsAnyToken (reasoningOf ch) \<or> state t \<noteq> stateIdle \<Longrightarrow>
   processEvent clock t (Decoded c)
     = processReasoning clock t (promoteFinishReason c) (reasoningOf ch)"
  by (auto simp: processEvent_choice)

lemma finishField_rebased:
  "finishField (ContentChunk (rebased base ch d)) = FinishReason ch"
  "finishField (ToolCallHeader (rebased base ch d)) = FinishReason ch"
  "finishField (ArgsDelta (rebased base ch d)) = FinishReason ch"
  by (simp_all add: finishField_def chunkOf_def)

lemma rebased_fields [simp]:
  "ID (rebased base ch d) = ID base" "Object (rebased base ch d) = Object base"
  "Model (rebased base ch d) = Model base" "Created (rebased base ch d) = Created base"
  "Usage (rebased base ch d) = Usage base"
  by (simp_all add: rebased_def)

text \<open>
  C10. Whatever the state of the transformer, every chunk it builds for an upstream chunk
  (content chunk, header chunk or argument delta) has exactly one choice, and that choice
  carries the index of the upstream chunk's first choice and its finish reason after
  promotion; the identification fields and the usage are those of the upstream chunk. So
  a chunk that brings both text and a finish reason hands the finish reason to each chunk
  rewritten from it.
\<close>

theorem rewritten_chunks_carry_finish_reason:
  assumes "Choices c = ch # rest"
  shows "\<exists>t' out. processEvent clock t (Decoded c) = Some (t', out) \<and>
           (\<forall>e\<in>set out. rewritten e \<longrightarrow>
              (\<exists>c' ch'. chunkOf e = Some c' \<and> Choices c' = [ch'] \<and> Index ch' = Index ch \<and>
                 FinishReason ch' = finishReasonOf ch \<and> ID c' = ID c \<and> Object c' = Object c \<and>
                 Model c' = Model c \<and> Created c' = Created c \<and> Usage c' = Usage c))"
proof (cases "\<not> containsAnyToken (reasoningOf ch) \<and> state t = stateIdle")
  case True
  with assms show ?thesis
    by (simp add: processEvent_choice rewritten_def)
next
  case False
  let ?ch = "\<lparr>Index = Index ch, Delta = (Delta ch)\<lparr>DeltaFinishReason := None\<rparr>,
    FinishReason = finishReasonOf ch\<rparr>"
  from processReasoning_built [OF promote_choice [OF assms], of clock t "reasoningOf ch"]
  obtain t' out where
    r: "processReasoning clock t (promoteFinishReason c) (reasoningOf ch) = Some (t', out)"
    and b: "\<forall>e\<in>set out. \<exists>d. e = ContentChunk (rebased (promoteFinishReason c) ?ch d) \<or>
        e = ToolCallHeader (rebased (promoteFinishReason c) ?ch d) \<or>
        e = ArgsDelta (rebased (promoteFinishReason c) ?ch d)"
    by blast
  have "\<exists>c' ch'. chunkOf e = Some c' \<and> Choices c' = [ch'] \<and> Index ch' = Index ch \<and>
      FinishReason ch' = finishReasonOf ch \<and> ID c' = ID c \<and> Object c' = Object c \<and>
      Model c' = Model c \<and> Created c' = Created c \<and> Usage c' = Usage c"
    if "e \<in> set out" for e
  proof -
    from b that obtain d where "e = ContentChunk (rebased (promoteFinishReason c) ?ch d) \<or>
        e = ToolCallHeader (rebased (promoteFinishReason c) ?ch d) \<or>
        e = ArgsDelta (rebased (promoteFinishReason c) ?ch d)"
      by blast
    then show ?thesis
      by (auto simp: chunkOf_def)
  qed
  with r False assms show ?thesis
    by (simp add: processEvent_rewrite)
qed

theorem rewritten_chunks_carry_finish_reason_witness:
  "Choices (upstreamChunk ''{}'' (Some ''stop''))
     = [\<lparr>Index = 0, Delta = zeroDelta\<lparr>Reasoning := ''{}''\<rparr>, FinishReason = Some ''stop''\<rparr>] \<and>
   (\<exists>e. processEvent (\<lambda>i. 42) readingArgs0 (Decoded (upstreamChunk ''{}'' (Some ''stop'')))
           = Some (readingArgs0, [e]) \<and>
        rewritten e \<and> argsOf e = Some (0, ''{}'') \<and> finishField e = Some ''stop'')"
proof -
  let ?c = "upstreamChunk ''{}'' (Some ''stop'')"
  let ?ch = "\<lparr>Index = 0, Delta = zeroDelta\<lparr>Reasoning := ''{}''\<rparr>, FinishReason = Some ''stop''\<rparr>"
  have run: "\<exists>e. processEvent (\<lambda>i. 42) readingArgs0 (Decoded ?c) = Some (readingArgs0, [e]) \<and>
      rewritten e \<and> argsOf e = Some (0, ''{}'')"
    by (simp add: run_rules rewritten_def argsOf_def toolCallOf_def)
  then obtain e where e: "processEvent (\<lambda>i. 42) readingArgs0 (Decoded ?c) = Some (readingArgs0, [e])"
    and rw: "rewritten e" and ar: "argsOf e = Some (0, ''{}'')"
    by blast
  from rewritten_chunks_carry_finish_reason [OF Choices_upstreamChunk, of "\<lambda>i. 42" readingArgs0
      "''{}''" "Some ''stop''"] e rw
  obtain c' ch' where "chunkOf e = Some c'" and "Choices c' = [ch']"
    and "FinishReason ch' = finishReasonOf ?ch"
    by auto
  then have "finishField e = Some ''stop''"
    by (simp add: finishField_def finishReasonOf_def zeroDelta_def)
  with e rw ar show ?thesis
    by (simp add: Choices_upstreamChunk)
qed

subsection \<open>C4: a chunk that carries a finish reason\<close>

lemma plain_bash_id: "fst (parseToolCallID 42 (TrimSpace ''bash'') 0) = ''call_0_42''"
  by code_simp

lemma plain_bash_name: "parseFunctionName (TrimSpace ''bash'') = ''bash''"
  by code_simp

text \<open>
  C4 fails on the code: the rewriter has no finish handling, and a chunk that brings only
  a finish reason while a section is open or has ended emits nothing, so the finish
  reason is lost. A fresh transformer is fed the opening of a call with the partial
  arguments \<open>{"partial"\<close> and then the chunk that carries \<^verbatim>\<open>finish_reason: "stop"\<close>
  in its delta: the header and one argument delta come out, neither with a finish
  reason, and the finish chunk adds nothing. The same happens after the section: on the
  stream of the repository's test \<open>content_before_and_after_toolcall\<close> the four chunks
  emitted carry no finish reason and the finish chunk, which arrives in
  \<open>stateTrailing\<close>, adds nothing. An idle transformer forwards the same finish chunk
  with an empty delta and the finish reason on the choice.
\<close>

theorem finish_reason_dropped:
  "(\<exists>t h a.
      transformAll (\<lambda>i. 42) NewToolCallTransformer
        [Data (Decoded (upstreamChunk
           ''<|tool_calls_section_begin|><|tool_call_begin|>bash:1<|tool_call_argument_begin|>{\"partial\"''
           None)),
         Data (Decoded (finishChunk ''stop''))] = Some (t, [h, a]) \<and>
      state t = stateReadingArgs \<and> buf t = [] \<and>
      map_option (\<lambda>tc. (CallID tc, CallIndex tc, Name (Function tc))) (headerOf h)
        = Some (''call_0_42'', 0, ''bash'') \<and>
      argsOf a = Some (0, ''{\"partial\"'') \<and> finishField h = None \<and> finishField a = None) \<and>
   (\<exists>t c1 h a c2.
      transformAll (\<lambda>i. 42) NewToolCallTransformer
        [Data (Decoded (upstreamChunk ''Hello <|tool_calls_section_begin|>world'' None)),
         Data (Decoded (upstreamChunk
           '' <|tool_call_begin|>bash<|tool_call_argument_begin|>{\"cmd\":\"ls\"}<|tool_call_end|> <|tool_calls_section_end|> end''
           None)),
         Data (Decoded (finishChunk ''stop''))] = Some (t, [c1, h, a, c2]) \<and>
      state t = stateTrailing \<and>
      map kindOf [c1, h, a, c2] = [KContent, KHeader 0, KArgs 0, KContent] \<and>
      map finishField [c1, h, a, c2] = [None, None, None, None]) \<and>
   (\<exists>e. processEvent (\<lambda>i. 42) NewToolCallTransformer (Decoded (finishChunk ''stop''))
          = Some (NewToolCallTransformer, [e]) \<and>
        map_option deltaOf (chunkOf e) = Some zeroDelta \<and> finishField e = Some ''stop'')"
proof (intro conjI)
  let ?s1 = "Data (Decoded (upstreamChunk
      ''<|tool_calls_section_begin|><|tool_call_begin|>bash:1<|tool_call_argument_begin|>{\"partial\"''
      None))"
  let ?fin = "Data (Decoded (finishChunk ''stop''))"
  have fin: "Transform (\<lambda>i. 42) t ?fin = Some (t, [])"
    if "state t = stateReadingArgs \<and> buf t = [] \<or> state t = stateTrailing" for t
    using that
    by (auto simp: Transform_def processEvent_finishChunk processReasoning_def processLoop.simps
        pass_ReadingArgs [OF _ promote_choice [OF Choices_finishChunk]] pass_Trailing
        tokCallEnd_def)
  have "\<exists>h a. Transform (\<lambda>i. 42) NewToolCallTransformer ?s1 = Some (readingArgs0, [h, a]) \<and>
      map_option (\<lambda>tc. (CallID tc, CallIndex tc, Name (Function tc))) (headerOf h)
        = Some (''call_0_42'', 0, ''bash'') \<and>
      argsOf a = Some (0, ''{\"partial\"'') \<and> finishField h = None \<and> finishField a = None"
    by (simp add: run_rules headerOf_def argsOf_def toolCallOf_def finishField_def chunkOf_def)
  then obtain h a
    where 1: "Transform (\<lambda>i. 42) NewToolCallTransformer ?s1 = Some (readingArgs0, [h, a])"
      and r: "map_option (\<lambda>tc. (CallID tc, CallIndex tc, Name (Function tc))) (headerOf h)
        = Some (''call_0_42'', 0, ''bash'')"
        "argsOf a = Some (0, ''{\"partial\"'')" "finishField h = None" "finishField a = None"
    by blast
  have 2: "Transform (\<lambda>i. 42) readingArgs0 ?fin = Some (readingArgs0, [])"
    by (rule fin) (simp add: readingArgs0_def)
  have "transformAll (\<lambda>i. 42) NewToolCallTransformer [?s1, ?fin] = Some (readingArgs0, [h, a])"
    by (simp only: transformAll.simps 1 2 option.case prod.case append.simps)
  moreover have "state readingArgs0 = stateReadingArgs \<and> buf readingArgs0 = []"
    by (simp add: readingArgs0_def)
  ultimately show "\<exists>t h a.
      transformAll (\<lambda>i. 42) NewToolCallTransformer [?s1, ?fin] = Some (t, [h, a]) \<and>
      state t = stateReadingArgs \<and> buf t = [] \<and>
      map_option (\<lambda>tc. (CallID tc, CallIndex tc, Name (Function tc))) (headerOf h)
        = Some (''call_0_42'', 0, ''bash'') \<and>
      argsOf a = Some (0, ''{\"partial\"'') \<and> finishField h = None \<and> finishField a = None"
    using r by (intro exI [of _ readingArgs0] exI [of _ h] exI [of _ a]) simp
  let ?u1 = "Data (Decoded (upstreamChunk ''Hello <|tool_calls_section_begin|>world'' None))"
  let ?u2 = "Data (Decoded (upstreamChunk
      '' <|tool_call_begin|>bash<|tool_call_argument_begin|>{\"cmd\":\"ls\"}<|tool_call_end|> <|tool_calls_section_end|> end''
      None))"
  let ?t1 = "\<lparr>state = stateInSection, buf = ''world'', toolIndex = 0, currentID = []\<rparr>"
  let ?t2 = "\<lparr>state = stateTrailing, buf = [], toolIndex = 1, currentID = ''call_0_42''\<rparr>"
  have "\<exists>c1. Transform (\<lambda>i. 42) NewToolCallTransformer ?u1 = Some (?t1, [c1]) \<and>
      kindOf c1 = KContent \<and> finishField c1 = None"
    by (simp add: run_rules finishField_def chunkOf_def kindOf_def)
  then obtain c1 where u1: "Transform (\<lambda>i. 42) NewToolCallTransformer ?u1 = Some (?t1, [c1])"
    and c1: "kindOf c1 = KContent" "finishField c1 = None"
    by blast
  have "\<exists>h a c2. Transform (\<lambda>i. 42) ?t1 ?u2 = Some (?t2, [h, a, c2]) \<and>
      kindOf h = KHeader 0 \<and> kindOf a = KArgs 0 \<and> kindOf c2 = KContent \<and>
      finishField h = None \<and> finishField a = None \<and> finishField c2 = None"
    by (simp add: run_rules plain_bash_id plain_bash_name finishField_def chunkOf_def
        kindOf_def toolCallOf_def)
  then obtain h' a' c2 where u2: "Transform (\<lambda>i. 42) ?t1 ?u2 = Some (?t2, [h', a', c2])"
    and k: "kindOf h' = KHeader 0" "kindOf a' = KArgs 0" "kindOf c2 = KContent"
      "finishField h' = None" "finishField a' = None" "finishField c2 = None"
    by blast
  have u3: "Transform (\<lambda>i. 42) ?t2 ?fin = Some (?t2, [])"
    by (rule fin) simp
  have "transformAll (\<lambda>i. 42) NewToolCallTransformer [?u1, ?u2, ?fin]
      = Some (?t2, [c1, h', a', c2])"
    by (simp only: transformAll.simps u1 u2 u3 option.case prod.case append.simps)
  then show "\<exists>t c1 h a c2.
      transformAll (\<lambda>i. 42) NewToolCallTransformer [?u1, ?u2, ?fin] = Some (t, [c1, h, a, c2]) \<and>
      state t = stateTrailing \<and>
      map kindOf [c1, h, a, c2] = [KContent, KHeader 0, KArgs 0, KContent] \<and>
      map finishField [c1, h, a, c2] = [None, None, None, None]"
    using c1 k
    by (intro exI [of _ ?t2] exI [of _ c1] exI [of _ h'] exI [of _ a'] exI [of _ c2]) simp
  have "processEvent (\<lambda>i. 42) NewToolCallTransformer (Decoded (finishChunk ''stop''))
      = Some (NewToolCallTransformer, [Verbatim (promoteFinishReason (finishChunk ''stop''))])"
    by (simp add: processEvent_finishChunk NewToolCallTransformer_def)
  moreover have "map_option deltaOf (chunkOf (Verbatim (promoteFinishReason (finishChunk ''stop''))))
      = Some zeroDelta"
    by (simp add: chunkOf_def promoteFinishReason_def finishChunk_def deltaOf_def zeroDelta_def)
  moreover have "finishField (Verbatim (promoteFinishReason (finishChunk ''stop''))) = Some ''stop''"
    by (simp add: finishField_def chunkOf_def promoteFinishReason_def finishChunk_def zeroDelta_def)
  ultimately show "\<exists>e. processEvent (\<lambda>i. 42) NewToolCallTransformer (Decoded (finishChunk ''stop''))
          = Some (NewToolCallTransformer, [e]) \<and>
        map_option deltaOf (chunkOf e) = Some zeroDelta \<and> finishField e = Some ''stop''"
    by (intro exI [of _ "Verbatim (promoteFinishReason (finishChunk ''stop''))"] conjI)
qed

subsection \<open>Positions found by \<open>strindex\<close>\<close>

lemma strindex_Some_prefix: "strindex s sub = Some i \<Longrightarrow> prefix sub (drop i s)"
proof (induction s arbitrary: i)
  case Nil
  then show ?case by (simp split: if_splits)
next
  case (Cons c cs)
  then show ?case by (auto split: if_splits)
qed

lemma strindex_first: "strindex s sub = Some i \<Longrightarrow> j < i \<Longrightarrow> \<not> prefix sub (drop j s)"
proof (induction s arbitrary: i j)
  case Nil
  then show ?case by (simp split: if_splits)
next
  case (Cons c cs)
  from Cons.prems have np: "\<not> prefix sub (c # cs)"
    by (auto split: if_splits)
  with Cons.prems obtain i' where i': "strindex cs sub = Some i'" "i = Suc i'"
    by auto
  show ?case
  proof (cases j)
    case 0
    with np show ?thesis by simp
  next
    case (Suc j')
    with Cons.IH [OF i'(1), of j'] Cons.prems(2) i'(2) show ?thesis by simp
  qed
qed

lemma strindex_None: "strindex s sub = None \<Longrightarrow> \<not> prefix sub (drop j s)"
proof (induction s arbitrary: j)
  case Nil
  then show ?case by (simp split: if_splits)
next
  case (Cons c cs)
  then show ?case by (cases j) (auto split: if_splits)
qed

lemma strindex_SomeI:
  assumes "prefix sub (drop i s)" and "i \<le> length s" and "\<And>j. j < i \<Longrightarrow> \<not> prefix sub (drop j s)"
  shows "strindex s sub = Some i"
proof (cases "strindex s sub")
  case None
  with assms(1) show ?thesis by (simp add: strindex_None)
next
  case (Some k)
  have "\<not> k < i"
    using strindex_Some_prefix [OF Some] assms(3) by blast
  moreover have "\<not> i < k"
    using strindex_first [OF Some] assms(1) by blast
  ultimately show ?thesis using Some by simp
qed

lemma strindex_NoneI:
  assumes "\<And>j. j \<le> length s \<Longrightarrow> \<not> prefix sub (drop j s)"
  shows "strindex s sub = None"
proof (cases "strindex s sub")
  case None
  then show ?thesis .
next
  case (Some k)
  with strindex_Some_prefix [OF Some] strindex_bound [OF Some] assms [of k] show ?thesis
    by simp
qed

text \<open>The bytes before the first occurrence of a delimiter do not hold the delimiter.\<close>

lemma strindex_take_None:
  assumes "strindex s sub = Some k" and "sub \<noteq> []"
  shows "strindex (take k s) sub = None"
proof (rule strindex_NoneI)
  fix j
  assume "j \<le> length (take k s)"
  then have jk: "j \<le> k" by simp
  show "\<not> prefix sub (drop j (take k s))"
  proof
    assume p: "prefix sub (drop j (take k s))"
    have "prefix (drop j (take k s)) (drop j s)"
      by (metis append_take_drop_id drop_append prefixI drop_take take_is_prefix)
    with p have ps: "prefix sub (drop j s)"
      using prefix_order.trans by blast
    show False
    proof (cases "j < k")
      case True
      with strindex_first [OF assms(1)] ps show False by blast
    next
      case False
      with jk have "drop j (take k s) = []" by simp
      with p assms(2) show False by simp
    qed
  qed
qed

subsection \<open>C1: what an argument delta holds\<close>

lemma pass_args_no_end:
  assumes "pass clock base t = Some (again, t', out)" and "e \<in> set out"
    and "argsOf e = Some (i, a)"
  shows "\<not> contains a tokCallEnd"
proof (cases "Choices base")
  case Nil
  with assms show ?thesis
    by (cases "state t")
      (auto simp: pass_def Let_def makeContentChunk_def makeToolCallHeader_def makeArgsDelta_def
        shallowCopy_def split: option.splits if_splits)
next
  case (Cons ch rest)
  have ne: "tokCallEnd \<noteq> []"
    by (simp add: tokCallEnd_def)
  show ?thesis
  proof (cases "state t")
    case stateReadingArgs
    show ?thesis
    proof (cases "strindex (buf t) tokCallEnd")
      case None
      with assms stateReadingArgs Cons show ?thesis
        by (auto simp: pass_ReadingArgs argsOf_def toolCallOf_def contains_def split: if_splits)
    next
      case (Some k)
      from strindex_take_None [OF Some ne] assms stateReadingArgs Cons Some show ?thesis
        by (auto simp: pass_ReadingArgs argsOf_def toolCallOf_def contains_def split: if_splits)
    qed
  qed (use assms Cons in \<open>auto simp: pass_rules argsOf_def split: option.splits if_splits\<close>)
qed

lemma processLoop_args_no_end:
  assumes "processLoop clock base t = Some (t', out)" and "e \<in> set out"
    and "argsOf e = Some (i, a)"
  shows "\<not> contains a tokCallEnd"
  using assms
proof (induction arbitrary: e rule: processLoop_induct)
  case (stop t t' out)
  then show ?case using pass_args_no_end by blast
next
  case (again t t1 o1 t' o2)
  then show ?case using pass_args_no_end by (metis Un_iff set_append)
qed

lemma pass_idle_content_no_begin:
  assumes "state t = stateIdle" and "pass clock base t = Some (again, t', out)"
    and "e \<in> set out" and "contentOf e = Some s"
  shows "\<not> contains s tokSectionBegin"
proof (cases "Choices base")
  case Nil
  with assms show ?thesis
    by (auto simp: pass_def makeContentChunk_def shallowCopy_def split: option.splits if_splits)
next
  case (Cons ch rest)
  have ne: "tokSectionBegin \<noteq> []"
    by (simp add: tokSectionBegin_def)
  show ?thesis
  proof (cases "strindex (buf t) tokSectionBegin")
    case None
    with assms Cons show ?thesis by (simp add: pass_Idle)
  next
    case (Some k)
    from strindex_take_None [OF Some ne] assms Cons Some show ?thesis
      by (auto simp: pass_Idle contentOf_def contains_def split: if_splits)
  qed
qed

text \<open>
  C1, as the claim states it, fails on a transformer that is reading arguments (the one a
  fresh transformer becomes after the opening of a first call) when the chunk \<open>a<b\<close>
  arrives: the buffer holds no complete \<open><|tool_call_end|>\<close>, and all three bytes are
  emitted as the argument delta, the \<open><\<close> and the byte after it included; nothing is
  retained. The claim has only \<open>a\<close> emitted and \<open><b\<close> kept in the buffer.
\<close>

theorem safe_flush_counterexample:
  "(\<exists>h. processEvent (\<lambda>i. 42) NewToolCallTransformer (Decoded (upstreamChunk sectionOpening None))
          = Some (readingArgs0, [h])) \<and>
   state readingArgs0 = stateReadingArgs \<and>
   \<not> contains (buf readingArgs0 @ ''a<b'') tokCallEnd \<and>
   takeWhile (\<lambda>c. c \<noteq> CHR ''<'') (buf readingArgs0 @ ''a<b'') = ''a'' \<and>
   (\<exists>t e. processEvent (\<lambda>i. 42) readingArgs0 (Decoded (upstreamChunk ''a<b'' None))
            = Some (t, [e]) \<and>
          argsOf e = Some (0, ''a<b'') \<and> buf t = [])"
proof -
  have "\<exists>t e. processEvent (\<lambda>i. 42) readingArgs0 (Decoded (upstreamChunk ''a<b'' None))
      = Some (t, [e]) \<and> argsOf e = Some (0, ''a<b'') \<and> buf t = []"
    by (simp add: run_rules argsOf_def toolCallOf_def)
  moreover have "\<not> contains (buf readingArgs0 @ ''a<b'') tokCallEnd"
    by (simp add: contains_def readingArgs0_def tokCallEnd_def)
  ultimately show ?thesis
    using opening_run by (auto simp: readingArgs0_def)
qed

text \<open>
  C1, amended. When the transformer is reading arguments and its buffer, with the text
  just fed, holds no complete \<open><|tool_call_end|>\<close> and does not end in a partial one,
  the whole buffer is emitted as one argument delta, a \<open><\<close> and the bytes after it
  included, and the buffer is left empty. No argument delta that the transformer ever
  emits holds a complete \<open><|tool_call_end|>\<close>, and no content chunk emitted by an idle
  transformer holds a complete \<open><|tool_calls_section_begin|>\<close>.
\<close>

theorem args_flushed_whole:
  assumes "state t = stateReadingArgs" and "Choices base = ch # rest"
    and "strindex (buf t @ text) tokCallEnd = None"
    and "\<not> endsWithPartial (buf t @ text) tokCallEnd"
    and "buf t @ text \<noteq> []"
  shows "(\<exists>e. processReasoning clock t base text = Some (t\<lparr>buf := []\<rparr>, [e]) \<and>
            argsOf e = Some (toolIndex t, buf t @ text)) \<and>
         (\<forall>t0 base0 text0 t' out.
            processReasoning clock t0 base0 text0 = Some (t', out) \<longrightarrow>
            (\<forall>e\<in>set out. \<forall>i a. argsOf e = Some (i, a) \<longrightarrow> \<not> contains a tokCallEnd)) \<and>
         (\<forall>t0 base0 again t' out.
            state t0 = stateIdle \<and> pass clock base0 t0 = Some (again, t', out) \<longrightarrow>
            (\<forall>e\<in>set out. \<forall>s. contentOf e = Some s \<longrightarrow> \<not> contains s tokSectionBegin))"
proof (intro conjI)
  let ?t = "t\<lparr>buf := buf t @ text\<rparr>"
  from assms have "pass clock base ?t =
      Some (False, t\<lparr>buf := []\<rparr>,
        [ArgsDelta (rebased base ch (zeroDelta\<lparr>ToolCalls :=
           [\<lparr>CallID = [], CallType = [], CallIndex = toolIndex t,
             Function = \<lparr>Name = [], Arguments = buf t @ text\<rparr>\<rparr>]\<rparr>))])"
    using pass_ReadingArgs_flush [where t = ?t and clock = clock and base = base and ch = ch
        and rest = rest]
    by simp
  from processLoop_stop [OF this]
  show "\<exists>e. processReasoning clock t base text = Some (t\<lparr>buf := []\<rparr>, [e]) \<and>
      argsOf e = Some (toolIndex t, buf t @ text)"
    by (simp add: processReasoning_def argsOf_def toolCallOf_def)
next
  show "\<forall>t0 base0 text0 t' out.
      processReasoning clock t0 base0 text0 = Some (t', out) \<longrightarrow>
      (\<forall>e\<in>set out. \<forall>i a. argsOf e = Some (i, a) \<longrightarrow> \<not> contains a tokCallEnd)"
    unfolding processReasoning_def using processLoop_args_no_end by blast
next
  show "\<forall>t0 base0 again t' out.
      state t0 = stateIdle \<and> pass clock base0 t0 = Some (again, t', out) \<longrightarrow>
      (\<forall>e\<in>set out. \<forall>s. contentOf e = Some s \<longrightarrow> \<not> contains s tokSectionBegin)"
    using pass_idle_content_no_begin by blast
qed

theorem args_flushed_whole_witness:
  "state readingArgs0 = stateReadingArgs \<and>
   strindex (buf readingArgs0 @ ''x < y'') tokCallEnd = None \<and>
   \<not> endsWithPartial (buf readingArgs0 @ ''x < y'') tokCallEnd \<and>
   (\<exists>e. processReasoning (\<lambda>i. 42) readingArgs0 (upstreamChunk ''x < y'' None) ''x < y''
          = Some (readingArgs0, [e]) \<and>
        argsOf e = Some (0, ''x < y''))"
proof -
  have s: "state readingArgs0 = stateReadingArgs" and b: "buf readingArgs0 = []"
    and i: "toolIndex readingArgs0 = 0" and u: "readingArgs0\<lparr>buf := []\<rparr> = readingArgs0"
    by (simp_all add: readingArgs0_def)
  have n: "strindex (buf readingArgs0 @ ''x < y'') tokCallEnd = None"
    by (simp add: b tokCallEnd_def)
  have p: "\<not> endsWithPartial (buf readingArgs0 @ ''x < y'') tokCallEnd"
    unfolding b endsWithPartial_def tokCallEnd_def by code_simp
  have ne: "buf readingArgs0 @ ''x < y'' \<noteq> []"
    by simp
  from args_flushed_whole [OF s Choices_upstreamChunk n p ne, of "\<lambda>i. 42"]
  have "\<exists>e. processReasoning (\<lambda>i. 42) readingArgs0 (upstreamChunk ''x < y'' None) ''x < y''
          = Some (readingArgs0, [e]) \<and> argsOf e = Some (0, ''x < y'')"
    by (simp add: b i u)
  with s n p show ?thesis by simp
qed

subsection \<open>C3: the argument bytes of a call whose end delimiter is split\<close>

text \<open>
  C3 fails on the code. The stream is one call \<open>bash:1\<close> with the arguments \<open>{}\<close>,
  delivered in two chunks that split \<open><|tool_call_end|>\<close> after \<open><|tool_call\<close>. The
  first chunk emits the header and the argument delta \<open>{}<|tool_call\<close>, the second the
  argument delta \<open>_end|>\<close>: the argument bytes of the call are \<open>{}<|tool_call_end|>\<close>
  and not \<open>{}\<close>, and the transformer is still reading arguments. Delivered in one chunk,
  the same text gives the argument bytes \<open>{}\<close>.
\<close>

theorem split_call_end_argument_bytes:
  "(\<exists>t out.
      transformAll (\<lambda>i. 42) NewToolCallTransformer
        [Data (Decoded (upstreamChunk
           ''<|tool_calls_section_begin|><|tool_call_begin|>bash:1<|tool_call_argument_begin|>{}<|tool_call''
           None)),
         Data (Decoded (upstreamChunk ''_end|>'' None))] = Some (t, out) \<and>
      map kindOf out = [KHeader 0, KArgs 0, KArgs 0] \<and>
      map argsOf out = [None, Some (0, ''{}<|tool_call''), Some (0, ''_end|>'')] \<and>
      state t = stateReadingArgs) \<and>
   (\<exists>t out.
      transformAll (\<lambda>i. 42) NewToolCallTransformer
        [Data (Decoded (upstreamChunk
           ''<|tool_calls_section_begin|><|tool_call_begin|>bash:1<|tool_call_argument_begin|>{}<|tool_call_end|>''
           None))] = Some (t, out) \<and>
      map kindOf out = [KHeader 0, KArgs 0] \<and>
      map argsOf out = [None, Some (0, ''{}'')] \<and>
      state t = stateInSection)"
  by (simp add: run_rules argsOf_def toolCallOf_def kindOf_def)

subsection \<open>C9: the order of the emitted chunks\<close>

lemma headersUpTo_simps [simp]:
  "headersUpTo n []" "headersUpTo n (KOther # h) = headersUpTo n h"
  "headersUpTo n (KContent # h) = headersUpTo n h"
  "headersUpTo n (KArgs i # h) = headersUpTo n h"
  "headersUpTo n (KHeader i # h) = (i \<le> n \<and> headersUpTo n h)"
  by (simp_all add: headersUpTo_def)

lemma headersBelow_simps [simp]:
  "headersBelow n []" "headersBelow n (KOther # h) = headersBelow n h"
  "headersBelow n (KContent # h) = headersBelow n h"
  "headersBelow n (KArgs i # h) = headersBelow n h"
  "headersBelow n (KHeader i # h) = (i < n \<and> headersBelow n h)"
  by (simp_all add: headersBelow_def)

lemma headersBelow_UpTo: "headersBelow n h \<Longrightarrow> headersUpTo n h"
  by (induction h) (auto split: kind.splits simp: headersBelow_def headersUpTo_def)

lemma headersUpTo_Below: "headersUpTo n h \<Longrightarrow> headersBelow (n + 1) h"
  by (induction h) (auto split: kind.splits simp: headersBelow_def headersUpTo_def)

lemma isHeader_simps [simp]:
  "isHeader (KHeader i)" "\<not> isHeader KOther" "\<not> isHeader KContent" "\<not> isHeader (KArgs i)"
  by (simp_all add: isHeader_def)

lemma quiet_history:
  assumes "list_all (\<lambda>y. y = KOther) h"
  shows "\<not> list_ex isHeader h"
  using assms by (auto simp: list_all_iff list_ex_iff isHeader_def)

lemma ordered_start: "ordered stateIdle 0 []"
  by (simp add: ordered_def)

lemma ordered_other: "ordered st n h \<Longrightarrow> ordered st n (KOther # h)"
  by (simp add: ordered_def)

lemma ordered_enter_section:
  assumes "ordered stateIdle n h"
  shows "ordered stateInSection n h" and "ordered stateInSection n (KContent # h)"
  using assms by (simp_all add: ordered_def quiet_history)

lemma ordered_leave_section:
  assumes "ordered stateInSection n h"
  shows "ordered stateTrailing n h" and "ordered stateTrailing n (KContent # h)"
    and "ordered stateReadingID n h"
  using assms by (simp_all add: ordered_def)

lemma ordered_header:
  assumes "ordered stateReadingID n h"
  shows "ordered stateReadingArgs n (KHeader n # h)"
  using assms by (simp add: ordered_def headersBelow_UpTo)

lemma ordered_args:
  assumes "ordered stateReadingArgs n h"
  shows "ordered stateReadingArgs n (KArgs n # h)"
  using assms by (simp add: ordered_def)

lemma ordered_call_end:
  assumes "ordered stateReadingArgs n h"
  shows "ordered stateInSection (n + 1) h"
  using assms by (simp add: ordered_def headersUpTo_Below)

text \<open>A pass keeps the invariant: the history grows by the kinds of the chunks the pass
  appends.\<close>

lemma kindOf_built [simp]:
  "kindOf (ContentChunk c) = KContent"
  "kindOf (ToolCallHeader (rebased base ch (zeroDelta\<lparr>ToolCalls := [tc]\<rparr>))) = KHeader (CallIndex tc)"
  "kindOf (ArgsDelta (rebased base ch (zeroDelta\<lparr>ToolCalls := [tc]\<rparr>))) = KArgs (CallIndex tc)"
  "kindOf (Verbatim c) = KOther" "kindOf DoneLine = KOther" "kindOf (RawLine s) = KOther"
  by (simp_all add: kindOf_def toolCallOf_def)

lemma pass_ordered:
  assumes "Choices base = ch # rest" and "pass clock base t = Some (again, t', out)"
    and "ordered (state t) (toolIndex t) h"
  shows "ordered (state t') (toolIndex t') (rev (map kindOf out) @ h)"
proof (cases "state t")
  case stateIdle
  with assms ordered_enter_section [of "toolIndex t" h] show ?thesis
    by (auto simp: pass_Idle split: option.splits if_splits)
next
  case stateInSection
  with assms ordered_leave_section [of "toolIndex t" h] show ?thesis
    by (auto simp: pass_InSection split: option.splits if_splits)
next
  case stateReadingID
  with assms ordered_header [of "toolIndex t" h] show ?thesis
    by (auto simp: pass_ReadingID split: option.splits if_splits)
next
  case stateReadingArgs
  with assms ordered_args [of "toolIndex t" h] ordered_call_end [of "toolIndex t" h]
    ordered_call_end [of "toolIndex t" "KArgs (toolIndex t) # h"]
  show ?thesis
    by (auto simp: pass_ReadingArgs split: option.splits if_splits)
next
  case stateTrailing
  with assms show ?thesis
    by (simp add: pass_Trailing)
qed

lemma processLoop_ordered:
  assumes "Choices base = ch # rest" and "processLoop clock base t = Some (t', out)"
    and "ordered (state t) (toolIndex t) h"
  shows "ordered (state t') (toolIndex t') (rev (map kindOf out) @ h)"
  using assms(2,3)
proof (induction arbitrary: h rule: processLoop_induct)
  case (stop t t' out)
  with pass_ordered [OF assms(1)] show ?case by blast
next
  case (again t t1 o1 t' o2)
  from pass_ordered [OF assms(1) again(1) again(4)]
  have "ordered (state t1) (toolIndex t1) (rev (map kindOf o1) @ h)" .
  from again(3) [OF this] show ?case by simp
qed

lemma processEvent_total: "\<exists>r. processEvent clock t p = Some r"
proof (cases p)
  case (Decoded c)
  show ?thesis
  proof (cases "Choices c")
    case Nil
    with Decoded show ?thesis by (simp add: processEvent_no_choice)
  next
    case (Cons ch rest)
    from processLoop_total [OF promote_choice [OF Cons]] Cons Decoded show ?thesis
      by (simp add: processEvent_choice processReasoning_def)
  qed
qed (simp_all add: processEvent_def)

lemma processEvent_ordered:
  assumes "processEvent clock t p = Some (t', out)" and "ordered (state t) (toolIndex t) h"
  shows "ordered (state t') (toolIndex t') (rev (map kindOf out) @ h)"
proof (cases p)
  case DoneText
  with assms show ?thesis by (auto simp: processEvent_def ordered_other)
next
  case (Undecodable s)
  with assms show ?thesis by (auto simp: processEvent_def ordered_other)
next
  case (Decoded c)
  show ?thesis
  proof (cases "Choices c")
    case Nil
    with Decoded assms show ?thesis by (auto simp: processEvent_no_choice ordered_other)
  next
    case (Cons ch rest)
    show ?thesis
    proof (cases "\<not> containsAnyToken (reasoningOf ch) \<and> state t = stateIdle")
      case True
      with Cons Decoded assms show ?thesis by (auto simp: processEvent_choice ordered_other)
    next
      case False
      with Cons Decoded assms(1)
      have "processLoop clock (promoteFinishReason c) (t\<lparr>buf := buf t @ reasoningOf ch\<rparr>)
          = Some (t', out)"
        by (simp add: processEvent_rewrite processReasoning_def)
      from processLoop_ordered [OF promote_choice [OF Cons] this] assms(2) show ?thesis
        by simp
    qed
  qed
qed

lemma Transform_total: "\<exists>r. Transform clock t ev = Some r"
  using processEvent_total by (cases ev) (simp_all add: Transform_def)

lemma Transform_ordered:
  assumes "Transform clock t ev = Some (t', out)" and "ordered (state t) (toolIndex t) h"
  shows "ordered (state t') (toolIndex t') (rev (map kindOf out) @ h)"
  using assms processEvent_ordered
  by (cases ev) (auto simp: Transform_def ordered_other)

lemma transformAll_total: "\<exists>r. transformAll clock t evs = Some r"
proof (induction evs arbitrary: t)
  case Nil
  show ?case by simp
next
  case (Cons ev evs)
  from Transform_total [of clock t ev] obtain t1 o1 where "Transform clock t ev = Some (t1, o1)"
    by auto
  moreover from Cons [of t1] obtain t2 o2 where "transformAll clock t1 evs = Some (t2, o2)"
    by auto
  ultimately show ?case by simp
qed

lemma transformAll_ordered:
  assumes "transformAll clock t evs = Some (t', out)" and "ordered (state t) (toolIndex t) h"
  shows "ordered (state t') (toolIndex t') (rev (map kindOf out) @ h)"
  using assms
proof (induction evs arbitrary: t h out)
  case Nil
  then show ?case by simp
next
  case (Cons ev evs)
  from Cons.prems(1) obtain t1 o1 o2 where 1: "Transform clock t ev = Some (t1, o1)"
    and 2: "transformAll clock t1 evs = Some (t', o2)" and o: "out = o1 @ o2"
    by (auto split: option.splits)
  from Cons.IH [OF 2 Transform_ordered [OF 1 Cons.prems(2)]] o show ?case
    by simp
qed

text \<open>From the history to positions in the stream.\<close>

lemma headersFirst_nth:
  "headersFirst (rev ks) \<Longrightarrow> j < length ks \<Longrightarrow> ks ! j = KArgs i \<Longrightarrow> \<exists>h<j. ks ! h = KHeader i"
proof (induction ks rule: rev_induct)
  case Nil
  then show ?case by simp
next
  case (snoc x ks)
  from snoc.prems(1) have hf: "headersFirst (rev ks)"
    by simp
  show ?case
  proof (cases "j < length ks")
    case True
    with snoc.prems(3) have "ks ! j = KArgs i"
      by (simp add: nth_append)
    from snoc.IH [OF hf True this] obtain h where h: "h < j" "ks ! h = KHeader i"
      by blast
    with True have "(ks @ [x]) ! h = KHeader i"
      by (simp add: nth_append)
    with h(1) show ?thesis by blast
  next
    case False
    with snoc.prems(2) have j: "j = length ks"
      by simp
    with snoc.prems(3) have x: "x = KArgs i"
      by simp
    with snoc.prems(1) have "KHeader i \<in> set ks"
      by simp
    then obtain h where h: "h < length ks" "ks ! h = KHeader i"
      by (auto simp: in_set_conv_nth)
    then have "(ks @ [x]) ! h = KHeader i"
      by (simp add: nth_append)
    with h(1) j show ?thesis by blast
  qed
qed

lemma headersUpTo_mem: "headersUpTo n h \<Longrightarrow> KHeader i \<in> set h \<Longrightarrow> i \<le> n"
  by (auto simp: headersUpTo_def list_all_iff)

lemma indicesRise_nth:
  "indicesRise (rev ks) \<Longrightarrow> k < j \<Longrightarrow> j < length ks \<Longrightarrow> ks ! k = KHeader i' \<Longrightarrow>
   ks ! j = KArgs i \<Longrightarrow> i' \<le> i"
proof (induction ks rule: rev_induct)
  case Nil
  then show ?case by simp
next
  case (snoc x ks)
  from snoc.prems(1) have ir: "indicesRise (rev ks)"
    by simp
  show ?case
  proof (cases "j < length ks")
    case True
    with snoc.prems(2,4,5) have "ks ! k = KHeader i'" "ks ! j = KArgs i"
      by (simp_all add: nth_append)
    with snoc.IH [OF ir snoc.prems(2) True] show ?thesis
      by blast
  next
    case False
    with snoc.prems(3) have j: "j = length ks"
      by simp
    with snoc.prems(5) have x: "x = KArgs i"
      by simp
    from j snoc.prems(2,4) have "ks ! k = KHeader i'" and "k < length ks"
      by (simp_all add: nth_append)
    then have "KHeader i' \<in> set (rev ks)"
      by (metis nth_mem set_rev)
    moreover from snoc.prems(1) x have "headersUpTo i (rev ks)"
      by simp
    ultimately show ?thesis
      by (rule headersUpTo_mem [rotated])
  qed
qed

lemma contentAfterHeader_nth:
  "h < k \<Longrightarrow> k < length ks \<Longrightarrow> ks ! h = KHeader i' \<Longrightarrow> ks ! k = KContent \<Longrightarrow>
   contentAfterHeader (rev ks)"
proof (induction ks rule: rev_induct)
  case Nil
  then show ?case by simp
next
  case (snoc x ks)
  show ?case
  proof (cases "k < length ks")
    case True
    with snoc.prems(1,3,4) have "ks ! h = KHeader i'" "ks ! k = KContent"
      by (simp_all add: nth_append)
    with snoc.IH [OF snoc.prems(1) True] show ?thesis
      by simp
  next
    case False
    with snoc.prems(2) have k: "k = length ks"
      by simp
    with snoc.prems(4) have x: "x = KContent"
      by simp
    from k snoc.prems(1,3) have "ks ! h = KHeader i'" and "h < length ks"
      by (simp_all add: nth_append)
    then have "KHeader i' \<in> set (rev ks)"
      by (metis nth_mem set_rev)
    moreover have "isHeader (KHeader i')"
      by (simp add: isHeader_def)
    ultimately have "list_ex isHeader (rev ks)"
      unfolding list_ex_iff by blast
    with x show ?thesis by simp
  qed
qed

lemma argsBeforeContent_nth:
  "argsBeforeContent (rev ks) \<Longrightarrow> h < k \<Longrightarrow> k < j \<Longrightarrow> j < length ks \<Longrightarrow>
   ks ! h = KHeader i' \<Longrightarrow> ks ! k = KContent \<Longrightarrow> ks ! j \<noteq> KArgs i"
proof (induction ks rule: rev_induct)
  case Nil
  then show ?case by simp
next
  case (snoc x ks)
  from snoc.prems(1) have ac: "argsBeforeContent (rev ks)"
    by simp
  show ?case
  proof (cases "j < length ks")
    case True
    with snoc.prems(2,3,5,6) have hk: "ks ! h = KHeader i'" "ks ! k = KContent"
      by (simp_all add: nth_append)
    from snoc.IH [OF ac snoc.prems(2,3) True hk] True show ?thesis
      by (simp add: nth_append)
  next
    case False
    with snoc.prems(4) have j: "j = length ks"
      by simp
    with snoc.prems(2,3,5,6) have "ks ! h = KHeader i'" "ks ! k = KContent" "k < length ks"
      by (simp_all add: nth_append)
    with snoc.prems(2) have "contentAfterHeader (rev ks)"
      using contentAfterHeader_nth by blast
    with snoc.prems(1) have "x \<noteq> KArgs i"
      by (auto split: kind.splits)
    with j show ?thesis
      by simp
  qed
qed

lemma headersNumbered_nth:
  "headersNumbered (rev ks) \<Longrightarrow> p < length ks \<Longrightarrow> ks ! p = KHeader i \<Longrightarrow>
   i = int (length (filter isHeader (take p ks)))"
proof (induction ks rule: rev_induct)
  case Nil
  then show ?case by simp
next
  case (snoc x ks)
  from snoc.prems(1) have hn: "headersNumbered (rev ks)"
    by simp
  show ?case
  proof (cases "p < length ks")
    case True
    with snoc.prems(3) have "ks ! p = KHeader i"
      by (simp add: nth_append)
    from snoc.IH [OF hn True this] True show ?thesis
      by simp
  next
    case False
    with snoc.prems(2) have p: "p = length ks"
      by simp
    with snoc.prems(3) have x: "x = KHeader i"
      by simp
    with snoc.prems(1) have "i = int (length (filter isHeader (rev ks)))"
      by simp
    also have "filter isHeader (rev ks) = rev (filter isHeader ks)"
      by (simp add: rev_filter)
    finally show ?thesis
      by (simp add: p)
  qed
qed

text \<open>A position that holds a header counts among the headers before any later
  position.\<close>

lemma count_before_mono:
  assumes "p < q" and "q \<le> length xs" and "P (xs ! p)"
  shows "length (filter P (take p xs)) < length (filter P (take q xs))"
proof -
  have "take q xs = take (Suc p) (take q xs) @ drop (Suc p) (take q xs)"
    by (simp only: append_take_drop_id)
  moreover from assms(1) have "take (Suc p) (take q xs) = take (Suc p) xs"
    by (simp add: min_def)
  moreover from assms(1,2) have "take (Suc p) xs = take p xs @ [xs ! p]"
    by (simp add: take_Suc_conv_app_nth)
  ultimately have "take q xs = (take p xs @ [xs ! p]) @ drop (Suc p) (take q xs)"
    by (simp only:)
  then have "length (filter P (take q xs)) =
      length (filter P ((take p xs @ [xs ! p]) @ drop (Suc p) (take q xs)))"
    by (rule arg_cong [of _ _ "\<lambda>ys. length (filter P ys)"])
  with assms(3) show ?thesis
    by simp
qed

text \<open>
  C9. In the stream a fresh transformer emits for any sequence of events, the tool calls
  are numbered by their headers: the index of a header chunk is the number of header
  chunks emitted before it, so the headers carry the indices 0, 1, 2 and so on, each
  index once, in rising order. Every argument delta comes after the header chunk of its
  own index. Of an argument delta with index \<open>i\<close> and a header chunk with index \<open>i'\<close>, the
  header comes first when \<open>i' \<le> i\<close> (the call's own header and those of the calls before
  it) and the argument delta comes first when \<open>i < i'\<close> (the header of the next call and
  of every later one). And an argument delta comes before any content chunk that follows
  a header, which is the content that trails the section (the content before the section
  is emitted before the first header).
\<close>

theorem header_before_arguments:
  "\<exists>t out. transformAll clock NewToolCallTransformer evs = Some (t, out) \<and>
     (\<forall>p i. p < length out \<longrightarrow> kindOf (out ! p) = KHeader i \<longrightarrow>
        i = int (length (filter (\<lambda>e. isHeader (kindOf e)) (take p out)))) \<and>
     (\<forall>p q i i'. p < q \<longrightarrow> q < length out \<longrightarrow> kindOf (out ! p) = KHeader i \<longrightarrow>
        kindOf (out ! q) = KHeader i' \<longrightarrow> i < i') \<and>
     (\<forall>j i. j < length out \<longrightarrow> kindOf (out ! j) = KArgs i \<longrightarrow>
        (\<exists>h<j. kindOf (out ! h) = KHeader i)) \<and>
     (\<forall>j k i i'. j < length out \<longrightarrow> k < length out \<longrightarrow> kindOf (out ! j) = KArgs i \<longrightarrow>
        kindOf (out ! k) = KHeader i' \<longrightarrow> (if i' \<le> i then k < j else j < k)) \<and>
     (\<forall>h k j i i'. h < k \<longrightarrow> k < length out \<longrightarrow> j < length out \<longrightarrow>
        kindOf (out ! h) = KHeader i' \<longrightarrow> kindOf (out ! k) = KContent \<longrightarrow>
        kindOf (out ! j) = KArgs i \<longrightarrow> j < k)"
proof -
  from transformAll_total [of clock NewToolCallTransformer evs]
  obtain t out where run: "transformAll clock NewToolCallTransformer evs = Some (t, out)"
    by auto
  define ks where "ks = map kindOf out"
  have "ordered (state NewToolCallTransformer) (toolIndex NewToolCallTransformer) []"
    by (simp add: NewToolCallTransformer_def ordered_start)
  from transformAll_ordered [OF run this]
  have hf: "headersFirst (rev ks)" and ir: "indicesRise (rev ks)"
    and ac: "argsBeforeContent (rev ks)" and hn: "headersNumbered (rev ks)"
    by (simp_all add: ordered_def ks_def)
  have len: "length ks = length out" and nth: "\<And>j. j < length out \<Longrightarrow> ks ! j = kindOf (out ! j)"
    by (simp_all add: ks_def)
  have cnt: "length (filter isHeader (take p ks))
      = length (filter (\<lambda>e. isHeader (kindOf e)) (take p out))" for p
  proof -
    have "filter isHeader (take p ks) = map kindOf (filter (\<lambda>e. isHeader (kindOf e)) (take p out))"
      by (simp add: ks_def take_map filter_map comp_def)
    then show ?thesis
      by simp
  qed
  have 0: "i = int (length (filter (\<lambda>e. isHeader (kindOf e)) (take p out)))"
    if "p < length out" "kindOf (out ! p) = KHeader i" for p i
    using headersNumbered_nth [OF hn, of p i] that by (simp add: len nth cnt)
  have r: "i < i'"
    if "p < q" "q < length out" "kindOf (out ! p) = KHeader i" "kindOf (out ! q) = KHeader i'"
    for p q i i'
  proof -
    from that have "isHeader (ks ! p)"
      by (simp add: nth)
    with that(1,2) have "length (filter isHeader (take p ks)) < length (filter isHeader (take q ks))"
      by (intro count_before_mono) (simp_all add: len)
    moreover from that have "i = int (length (filter isHeader (take p ks)))"
      using 0 [of p i] by (simp add: cnt)
    moreover from that have "i' = int (length (filter isHeader (take q ks)))"
      using 0 [of q i'] by (simp add: cnt)
    ultimately show ?thesis
      by simp
  qed
  have 1: "\<exists>h<j. kindOf (out ! h) = KHeader i"
    if "j < length out" "kindOf (out ! j) = KArgs i" for j i
  proof -
    from that headersFirst_nth [OF hf, of j i] obtain h where "h < j" "ks ! h = KHeader i"
      by (auto simp: len nth)
    with that(1) show ?thesis
      by (auto simp: nth)
  qed
  have 2: "j < k"
    if "j < length out" "k < length out" "kindOf (out ! j) = KArgs i"
      "kindOf (out ! k) = KHeader i'" "i < i'" for j k i i'
  proof (rule ccontr)
    assume "\<not> j < k"
    with that(3,4) have "k < j"
      by (cases "j = k") auto
    from indicesRise_nth [OF ir this, of i' i] that show False
      by (simp add: len nth)
  qed
  have own: "k < j"
    if "j < length out" "k < length out" "kindOf (out ! j) = KArgs i"
      "kindOf (out ! k) = KHeader i'" "i' \<le> i" for j k i i'
  proof -
    from 1 [OF that(1,3)] obtain h where h: "h < j" "kindOf (out ! h) = KHeader i"
      by blast
    show ?thesis
    proof (cases "k \<le> h")
      case True
      with h(1) show ?thesis by simp
    next
      case False
      then have "h < k" by simp
      from r [OF this that(2) h(2) that(4)] that(5) show ?thesis
        by simp
    qed
  qed
  have 3: "j < k"
    if "h < k" "k < length out" "j < length out" "kindOf (out ! h) = KHeader i'"
      "kindOf (out ! k) = KContent" "kindOf (out ! j) = KArgs i" for h k j i i'
  proof (rule ccontr)
    assume "\<not> j < k"
    with that(5,6) have "k < j"
      by (cases "j = k") auto
    from argsBeforeContent_nth [OF ac that(1) this, of i' i] that show False
      by (simp add: len nth)
  qed
  show ?thesis
  proof (intro exI [of _ t] exI [of _ out] conjI allI impI)
    show "transformAll clock NewToolCallTransformer evs = Some (t, out)"
      by (rule run)
  next
    fix p i
    assume "p < length out" "kindOf (out ! p) = KHeader i"
    then show "i = int (length (filter (\<lambda>e. isHeader (kindOf e)) (take p out)))"
      by (rule 0)
  next
    fix p q i i'
    assume "p < q" "q < length out" "kindOf (out ! p) = KHeader i" "kindOf (out ! q) = KHeader i'"
    then show "i < i'"
      by (rule r)
  next
    fix j i
    assume "j < length out" "kindOf (out ! j) = KArgs i"
    then show "\<exists>h<j. kindOf (out ! h) = KHeader i"
      by (rule 1)
  next
    fix j k i i'
    assume a: "j < length out" "k < length out" "kindOf (out ! j) = KArgs i"
      "kindOf (out ! k) = KHeader i'"
    show "if i' \<le> i then k < j else j < k"
    proof (cases "i' \<le> i")
      case True
      with own [OF a] show ?thesis by simp
    next
      case False
      with 2 [OF a] show ?thesis by simp
    qed
  next
    fix h k j i i'
    assume "h < k" "k < length out" "j < length out" "kindOf (out ! h) = KHeader i'"
      "kindOf (out ! k) = KContent" "kindOf (out ! j) = KArgs i"
    then show "j < k"
      by (rule 3)
  qed
qed


lemma ls_id: "fst (parseToolCallID 42 (TrimSpace ''functions.ls:2'') 1) = ''call_1_42''"
  by code_simp

lemma ls_name: "parseFunctionName (TrimSpace ''functions.ls:2'') = ''ls''"
  by code_simp

theorem header_before_arguments_witness:
  "\<exists>t h0 a0 h1 a1 c.
     transformAll (\<lambda>i. 42) NewToolCallTransformer
       [Data (Decoded (upstreamChunk
          ''<|tool_calls_section_begin|><|tool_call_begin|>bash:1<|tool_call_argument_begin|>{}<|tool_call_end|>''
          None)),
        Data (Decoded (upstreamChunk
          ''<|tool_call_begin|>functions.ls:2<|tool_call_argument_begin|>[]<|tool_call_end|><|tool_calls_section_end|> Done!''
          None))] = Some (t, [h0, a0, h1, a1, c]) \<and>
     kindOf h0 = KHeader 0 \<and> kindOf a0 = KArgs 0 \<and> kindOf h1 = KHeader 1 \<and>
     kindOf a1 = KArgs 1 \<and> kindOf c = KContent"
proof -
  let ?ev1 = "Data (Decoded (upstreamChunk
      ''<|tool_calls_section_begin|><|tool_call_begin|>bash:1<|tool_call_argument_begin|>{}<|tool_call_end|>''
      None))"
  let ?ev2 = "Data (Decoded (upstreamChunk
      ''<|tool_call_begin|>functions.ls:2<|tool_call_argument_begin|>[]<|tool_call_end|><|tool_calls_section_end|> Done!''
      None))"
  let ?t1 = "\<lparr>state = stateInSection, buf = [], toolIndex = 1, currentID = ''call_0_42''\<rparr>"
  let ?t2 = "\<lparr>state = stateTrailing, buf = [], toolIndex = 2, currentID = ''call_1_42''\<rparr>"
  have "\<exists>h0 a0. Transform (\<lambda>i. 42) NewToolCallTransformer ?ev1 = Some (?t1, [h0, a0]) \<and>
      kindOf a0 = KArgs 0"
    by (simp add: run_rules)
  then obtain h0 a0
    where 1: "Transform (\<lambda>i. 42) NewToolCallTransformer ?ev1 = Some (?t1, [h0, a0])"
      and a0: "kindOf a0 = KArgs 0"
    by blast
  have "\<exists>h1 a1 c. Transform (\<lambda>i. 42) ?t1 ?ev2 = Some (?t2, [h1, a1, c]) \<and>
      kindOf a1 = KArgs 1 \<and> kindOf c = KContent"
    by (simp add: run_rules ls_id ls_name)
  then obtain h1 a1 c
    where 2: "Transform (\<lambda>i. 42) ?t1 ?ev2 = Some (?t2, [h1, a1, c])"
      and a1: "kindOf a1 = KArgs 1" and c: "kindOf c = KContent"
    by blast
  have run: "transformAll (\<lambda>i. 42) NewToolCallTransformer [?ev1, ?ev2]
      = Some (?t2, [h0, a0, h1, a1, c])"
    by (simp only: transformAll.simps 1 2 option.case prod.case append.simps)
  from header_before_arguments [of "\<lambda>i. 42" "[?ev1, ?ev2]"]
  obtain t' out
    where run': "transformAll (\<lambda>i. 42) NewToolCallTransformer [?ev1, ?ev2] = Some (t', out)"
      and numbered: "\<forall>p i. p < length out \<longrightarrow> kindOf (out ! p) = KHeader i \<longrightarrow>
        i = int (length (filter (\<lambda>e. isHeader (kindOf e)) (take p out)))"
      and first: "\<forall>j i. j < length out \<longrightarrow> kindOf (out ! j) = KArgs i \<longrightarrow>
        (\<exists>k<j. kindOf (out ! k) = KHeader i)"
    by (elim exE conjE) (rule that)
  from run run' have out: "out = [h0, a0, h1, a1, c]"
    by simp
  from first [rule_format, of 1 0] a0 have h0: "kindOf h0 = KHeader 0"
    unfolding out by simp
  from first [rule_format, of 3 1] a1 obtain k where k: "k < 3"
    and kh: "kindOf ([h0, a0, h1, a1, c] ! k) = KHeader 1"
    unfolding out by auto
  from k consider "k = 0" | "k = 1" | "k = 2"
    by linarith
  then have h1: "kindOf h1 = KHeader 1"
  proof cases
    case 1
    with kh h0 show ?thesis by simp
  next
    case 2
    with kh a0 show ?thesis by simp
  next
    case 3
    with kh show ?thesis by simp
  qed
  show ?thesis
    by (rule exI [of _ ?t2], rule exI [of _ h0], rule exI [of _ a0], rule exI [of _ h1],
        rule exI [of _ a1], rule exI [of _ c])
      (intro conjI run h0 a0 h1 a1 c)
qed

subsection \<open>C2: the same text in other chunks\<close>

text \<open>A delimiter found in a buffer is found at the same place when more text follows.\<close>

lemma prefix_append_short: "length tok \<le> length s \<Longrightarrow> prefix tok (s @ b) = prefix tok s"
  by (auto simp: prefix_append prefix_length_le)

lemma strindex_append_stable:
  "strindex s tok = Some k \<Longrightarrow> strindex (s @ b) tok = Some k"
proof (induction s arbitrary: k)
  case Nil
  then show ?case by (cases b) (auto split: if_splits)
next
  case (Cons c cs)
  show ?case
  proof (cases "prefix tok (c # cs)")
    case True
    with Cons.prems have "k = 0" by simp
    moreover from True have "prefix tok ((c # cs) @ b)"
      using prefix_prefix by blast
    ultimately show ?thesis by simp
  next
    case False
    with Cons.prems obtain k' where k': "strindex cs tok = Some k'" "k = Suc k'"
      by auto
    from strindex_bound [OF k'(1)] have "length tok \<le> length (c # cs)"
      by simp
    with False prefix_append_short [of tok "c # cs" b] have "\<not> prefix tok ((c # cs) @ b)"
      by simp
    with Cons.IH [OF k'(1)] k'(2) show ?thesis by simp
  qed
qed

text \<open>A buffer that neither holds a delimiter nor ends in a partial one: with more text,
  the delimiter is found where it is found in the new text.\<close>

lemma endsWithPartial_iff:
  "endsWithPartial s tok \<longleftrightarrow> (\<exists>n. 0 < n \<and> n < length tok \<and> suffix (take n tok) s)"
  by (force simp: endsWithPartial_def list_ex_iff Suc_le_eq)

lemma endsWithPartial_Cons: "endsWithPartial s tok \<Longrightarrow> endsWithPartial (c # s) tok"
  by (auto simp: endsWithPartial_iff suffix_Cons)

lemma endsWithPartial_suffix:
  assumes "endsWithPartial r tok" and "suffix r s"
  shows "endsWithPartial s tok"
  using assms suffix_order.trans by (fastforce simp: endsWithPartial_iff)

lemma strindex_append_None:
  assumes "strindex s tok = None" and "\<not> endsWithPartial s tok" and "tok \<noteq> []"
  shows "strindex (s @ b) tok = map_option (\<lambda>k. length s + k) (strindex b tok)"
  using assms(1,2)
proof (induction s)
  case Nil
  then show ?case by (simp add: option.map_ident)
next
  case (Cons c cs)
  from Cons.prems(1) have np: "\<not> prefix tok (c # cs)" and none: "strindex cs tok = None"
    by (auto split: if_splits)
  from Cons.prems(2) have nep: "\<not> endsWithPartial cs tok"
    using endsWithPartial_Cons by blast
  have "\<not> prefix tok ((c # cs) @ b)"
  proof
    assume p: "prefix tok ((c # cs) @ b)"
    show False
    proof (cases "length tok \<le> length (c # cs)")
      case True
      with p np prefix_append_short [of tok "c # cs" b] show False by simp
    next
      case False
      from p np obtain us where us: "tok = (c # cs) @ us"
        unfolding prefix_append by blast
      then have "take (length (c # cs)) tok = c # cs"
        by simp
      moreover from False have "length (c # cs) < length tok" by simp
      ultimately have "endsWithPartial (c # cs) tok"
        unfolding endsWithPartial_iff by (metis length_greater_0_conv list.distinct(1) suffix_order.refl)
      with Cons.prems(2) show False by simp
    qed
  qed
  with Cons.IH [OF none nep] show ?case
    by (simp add: option.map_comp comp_def)
qed

text \<open>The byte \<open><\<close> opens every delimiter and occurs nowhere else in the end delimiter of
  a section, so the beginning of a call cannot lie inside one.\<close>

lemma sectionEnd_inner_bytes: "0 < m \<Longrightarrow> m < length tokSectionEnd \<Longrightarrow> tokSectionEnd ! m \<noteq> CHR ''<''"
proof -
  assume m: "0 < m" "m < length tokSectionEnd"
  have "CHR ''<'' \<notin> set (tl tokSectionEnd)"
    by (simp add: tokSectionEnd_def)
  moreover from m have "tokSectionEnd ! m = tl tokSectionEnd ! (m - 1)"
    by (cases m) (simp_all add: nth_tl)
  moreover from m have "m - 1 < length (tl tokSectionEnd)"
    by simp
  ultimately show ?thesis
    by (metis nth_mem)
qed

lemma prefix_nth: "prefix xs ys \<Longrightarrow> m < length xs \<Longrightarrow> ys ! m = xs ! m"
  by (auto simp: prefix_def nth_append)

lemma call_begin_not_inside_section_end:
  assumes i: "strindex s tokCallBegin = Some i" and n: "strindex s tokSectionEnd = None"
    and e: "strindex (s @ b) tokSectionEnd = Some e"
  shows "\<not> e < i"
proof
  assume lt: "e < i"
  from strindex_bound [OF i] have ib: "i + 19 \<le> length s"
    by (simp add: token_lengths)
  have "\<not> e + 26 \<le> length s"
  proof
    assume le: "e + 26 \<le> length s"
    from strindex_Some_prefix [OF e] le have "prefix tokSectionEnd (drop e s @ b)"
      by simp
    moreover from le have "length tokSectionEnd \<le> length (drop e s)"
      by (simp add: token_lengths)
    ultimately have "prefix tokSectionEnd (drop e s)"
      by (simp only: prefix_append_short)
    with strindex_None [OF n] show False by blast
  qed
  with ib lt have m: "0 < i - e" "i - e < length tokSectionEnd"
    by (simp_all add: token_lengths)
  from strindex_Some_prefix [OF e] m(2) have "drop e (s @ b) ! (i - e) = tokSectionEnd ! (i - e)"
    by (rule prefix_nth)
  moreover have "drop e (s @ b) ! (i - e) = s ! i"
  proof -
    from lt ib have "e \<le> length (s @ b)" and "e + (i - e) = i" and "i < length s"
      by simp_all
    then show ?thesis
      by (simp only: nth_drop nth_append if_True)
  qed
  moreover from strindex_Some_prefix [OF i] have "drop i s ! 0 = tokCallBegin ! 0"
    by (rule prefix_nth) (simp add: token_lengths)
  then have "s ! i = CHR ''<''"
    using ib by (simp add: tokCallBegin_def)
  ultimately show False
    using sectionEnd_inner_bytes [OF m] by simp
qed

lemma sectionEnd_stable:
  assumes "strindex s tokCallBegin = Some i"
    and "sectionEnd (Some i) (strindex s tokSectionEnd) = None"
  shows "sectionEnd (Some i) (strindex (s @ b) tokSectionEnd) = None"
proof (cases "strindex s tokSectionEnd")
  case None
  with call_begin_not_inside_section_end [OF assms(1) None, of b] show ?thesis
    by (auto simp: sectionEnd_def split: option.splits)
next
  case (Some e)
  with assms(2) strindex_append_stable [OF Some, of b] show ?thesis
    by simp
qed

text \<open>The payload of the chunks the builders make does not depend on the base.\<close>

lemma itemsOf_built [simp]:
  "itemsOf (ContentChunk (rebased base ch (zeroDelta\<lparr>Content := s\<rparr>))) = map ContentByte s"
  "itemsOf (ToolCallHeader (rebased base ch (zeroDelta\<lparr>ToolCalls := [tc]\<rparr>)))
     = [HeaderItem (CallID tc) (Name (Function tc)) (CallIndex tc)]"
  "itemsOf (ArgsDelta (rebased base ch (zeroDelta\<lparr>ToolCalls := [tc]\<rparr>)))
     = map (ArgByte (CallIndex tc)) (Arguments (Function tc))"
  by (simp_all add: itemsOf_def toolCallOf_def)

lemma payloadOf_simps [simp]:
  "payloadOf [] = []" "payloadOf (e # out) = itemsOf e @ payloadOf out"
  "payloadOf (out @ out') = payloadOf out @ payloadOf out'"
  by (simp_all add: payloadOf_def)

lemma pass_rebase:
  assumes "Choices b1 = c1 # r1" and "Choices b2 = c2 # r2"
    and "pass clock b1 t = Some (g, t', o1)"
  shows "\<exists>o2. pass clock b2 t = Some (g, t', o2) \<and> payloadOf o2 = payloadOf o1"
proof (cases "state t")
  case stateIdle
  with assms(3) show ?thesis
    by (auto simp: pass_Idle [OF _ assms(1)] pass_Idle [OF _ assms(2)] split: option.splits)
next
  case stateInSection
  with assms(3) show ?thesis
    by (auto simp: pass_InSection [OF _ assms(1)] pass_InSection [OF _ assms(2)]
        split: option.splits)
next
  case stateReadingID
  with assms(3) show ?thesis
    by (auto simp: pass_ReadingID [OF _ assms(1)] pass_ReadingID [OF _ assms(2)]
        split: option.splits)
next
  case stateReadingArgs
  with assms(3) show ?thesis
    by (auto simp: pass_ReadingArgs [OF _ assms(1)] pass_ReadingArgs [OF _ assms(2)]
        split: option.splits)
next
  case stateTrailing
  with assms(3) show ?thesis
    by (simp add: pass_Trailing)
qed

lemma processLoop_rebase:
  assumes "Choices b1 = c1 # r1" and "Choices b2 = c2 # r2"
    and "processLoop clock b1 t = Some (t', o1)"
  shows "\<exists>o2. processLoop clock b2 t = Some (t', o2) \<and> payloadOf o2 = payloadOf o1"
  using assms(3)
proof (induction rule: processLoop_induct)
  case (stop t t' out)
  from pass_rebase [OF assms(1,2) this] obtain o2
    where "pass clock b2 t = Some (False, t', o2)" "payloadOf o2 = payloadOf out"
    by blast
  then show ?case
    by (auto simp: processLoop_stop)
next
  case (again t t1 o1 t' o2)
  from pass_rebase [OF assms(1,2) again(1)] obtain o1'
    where p: "pass clock b2 t = Some (True, t1, o1')" "payloadOf o1' = payloadOf o1"
    by blast
  from again(3) obtain o2' where "processLoop clock b2 t1 = Some (t', o2')"
    "payloadOf o2' = payloadOf o2"
    by blast
  with p show ?case
    by (auto simp: processLoop_again [OF p(1)])
qed

text \<open>A pass that goes round again cuts the buffer after a delimiter it has found: what
  is left is a suffix, and the same pass is made when more text follows the buffer.\<close>

lemma pass_again_suffix:
  assumes "pass clock base t = Some (True, t1, o1)"
  shows "suffix (buf t1) (buf t)"
proof -
  from assms have "\<exists>n. buf t1 = drop n (buf t)"
    by (cases "state t")
      (auto simp: pass_def Let_def split: option.splits if_splits)
  then show ?thesis
    using suffix_drop by metis
qed

lemma pass_again_extend:
  assumes "Choices ba = ca # ra" and "Choices bab = cab # rab"
    and "pass clock ba t = Some (True, t1, o1)"
  shows "\<exists>o1'. pass clock bab (t\<lparr>buf := buf t @ b\<rparr>) = Some (True, t1\<lparr>buf := buf t1 @ b\<rparr>, o1') \<and>
           payloadOf o1' = payloadOf o1"
proof (cases "state t")
  case stateIdle
  with assms(3) obtain k where k: "strindex (buf t) tokSectionBegin = Some k"
    by (auto simp: pass_Idle [OF _ assms(1)] split: option.splits)
  from assms(3) strindex_bound [OF k] show ?thesis
    by (simp add: pass_Idle [OF _ assms(1)] pass_Idle [OF _ assms(2)] stateIdle k
        strindex_append_stable [OF k]) auto
next
  case stateInSection
  with assms(3) obtain i where i: "strindex (buf t) tokCallBegin = Some i"
    and e: "sectionEnd (Some i) (strindex (buf t) tokSectionEnd) = None"
    by (auto simp: pass_InSection [OF _ assms(1)] split: option.splits)
  from assms(3) strindex_bound [OF i] show ?thesis
    by (simp add: pass_InSection [OF _ assms(1)] pass_InSection [OF _ assms(2)] stateInSection
        i e strindex_append_stable [OF i] sectionEnd_stable [OF i e]) auto
next
  case stateReadingID
  with assms(3) obtain k where k: "strindex (buf t) tokArgBegin = Some k"
    by (auto simp: pass_ReadingID [OF _ assms(1)] split: option.splits)
  from assms(3) strindex_bound [OF k] show ?thesis
    by (simp add: pass_ReadingID [OF _ assms(1)] pass_ReadingID [OF _ assms(2)] stateReadingID
        k strindex_append_stable [OF k]) auto
next
  case stateReadingArgs
  with assms(3) obtain k where k: "strindex (buf t) tokCallEnd = Some k"
    by (auto simp: pass_ReadingArgs [OF _ assms(1)] split: option.splits)
  from assms(3) strindex_bound [OF k] show ?thesis
    by (simp add: pass_ReadingArgs [OF _ assms(1)] pass_ReadingArgs [OF _ assms(2)]
        stateReadingArgs k strindex_append_stable [OF k]) auto
next
  case stateTrailing
  with assms(3) show ?thesis
    by (simp add: pass_Trailing)
qed

text \<open>Once the section has begun the transformer is never idle again.\<close>

lemma pass_not_idle:
  "pass clock base t = Some (g, t', out) \<Longrightarrow> state t \<noteq> stateIdle \<Longrightarrow> state t' \<noteq> stateIdle"
  by (cases "state t") (auto simp: pass_def Let_def split: option.splits if_splits)

lemma processLoop_not_idle:
  "processLoop clock base t = Some (t', out) \<Longrightarrow> state t \<noteq> stateIdle \<Longrightarrow> state t' \<noteq> stateIdle"
proof (induction rule: processLoop_induct)
  case (stop t t' out)
  then show ?case using pass_not_idle by blast
next
  case (again t t1 o1 t' o2)
  then show ?case using pass_not_idle by blast
qed

text \<open>Two runs of the loop from the same state with different bases end in the same
  state with the same payload.\<close>

lemma loop_keep:
  assumes "Choices bb = cb # rb" and "Choices bab = cab # rab"
  shows "\<exists>tb ob oab. processLoop clock bb t = Some (tb, ob) \<and>
           processLoop clock bab t = Some (tb, oab) \<and> payloadOf ob = payloadOf oab"
proof -
  from processLoop_total [OF assms(1), of clock t] obtain tb ob
    where "processLoop clock bb t = Some (tb, ob)"
    by auto
  moreover from processLoop_rebase [OF assms this] obtain oab
    where "processLoop clock bab t = Some (tb, oab)" "payloadOf oab = payloadOf ob"
    by blast
  ultimately show ?thesis
    by simp
qed

lemma payloadOf_args [simp]:
  "payloadOf (if s \<noteq> []
      then [ArgsDelta (rebased base ch (zeroDelta\<lparr>ToolCalls :=
              [\<lparr>CallID = [], CallType = [], CallIndex = n,
                Function = \<lparr>Name = [], Arguments = s\<rparr>\<rparr>]\<rparr>))]
      else []) = map (ArgByte n) s"
  by simp

text \<open>The flush of a transformer that reads arguments, against one pass over the buffer
  with the next text appended.\<close>

lemma flush_split:
  assumes bb: "Choices bb = cb # rb" and bab: "Choices bab = cab # rab"
    and st: "state t = stateReadingArgs"
    and none: "strindex (buf t) tokCallEnd = None"
    and np: "\<not> endsWithPartial (buf t) tokCallEnd"
  shows "\<exists>tb ob oab. processLoop clock bb (t\<lparr>buf := b\<rparr>) = Some (tb, ob) \<and>
           processLoop clock bab (t\<lparr>buf := buf t @ b\<rparr>) = Some (tb, oab) \<and>
           map (ArgByte (toolIndex t)) (buf t) @ payloadOf ob = payloadOf oab"
proof -
  have ne: "tokCallEnd \<noteq> []"
    by (simp add: tokCallEnd_def)
  note ix = strindex_append_None [OF none np ne, of b]
  show ?thesis
  proof (cases "strindex b tokCallEnd")
    case None
    with ix have n2: "strindex (buf t @ b) tokCallEnd = None"
      by simp
    have pb: "pass clock bb (t\<lparr>buf := b\<rparr>) = Some (False, t\<lparr>buf := []\<rparr>,
        if b \<noteq> []
        then [ArgsDelta (rebased bb cb (zeroDelta\<lparr>ToolCalls :=
                [\<lparr>CallID = [], CallType = [], CallIndex = toolIndex t,
                  Function = \<lparr>Name = [], Arguments = b\<rparr>\<rparr>]\<rparr>))]
        else [])"
      using st None by (simp add: pass_ReadingArgs [OF _ bb])
    have pab: "pass clock bab (t\<lparr>buf := buf t @ b\<rparr>) = Some (False, t\<lparr>buf := []\<rparr>,
        if buf t @ b \<noteq> []
        then [ArgsDelta (rebased bab cab (zeroDelta\<lparr>ToolCalls :=
                [\<lparr>CallID = [], CallType = [], CallIndex = toolIndex t,
                  Function = \<lparr>Name = [], Arguments = buf t @ b\<rparr>\<rparr>]\<rparr>))]
        else [])"
      using st n2 by (simp add: pass_ReadingArgs [OF _ bab])
    show ?thesis
      unfolding processLoop_stop [OF pb] processLoop_stop [OF pab]
      by simp
  next
    case (Some k)
    with ix have s2: "strindex (buf t @ b) tokCallEnd = Some (length (buf t) + k)"
      by simp
    let ?t2 = "t\<lparr>buf := drop (k + length tokCallEnd) b, toolIndex := toolIndex t + 1,
      state := stateInSection\<rparr>"
    have pb: "pass clock bb (t\<lparr>buf := b\<rparr>) = Some (True, ?t2,
        if take k b \<noteq> []
        then [ArgsDelta (rebased bb cb (zeroDelta\<lparr>ToolCalls :=
                [\<lparr>CallID = [], CallType = [], CallIndex = toolIndex t,
                  Function = \<lparr>Name = [], Arguments = take k b\<rparr>\<rparr>]\<rparr>))]
        else [])"
      using st Some by (simp add: pass_ReadingArgs [OF _ bb])
    have pab: "pass clock bab (t\<lparr>buf := buf t @ b\<rparr>) = Some (True, ?t2,
        if buf t @ take k b \<noteq> []
        then [ArgsDelta (rebased bab cab (zeroDelta\<lparr>ToolCalls :=
                [\<lparr>CallID = [], CallType = [], CallIndex = toolIndex t,
                  Function = \<lparr>Name = [], Arguments = buf t @ take k b\<rparr>\<rparr>]\<rparr>))]
        else [])"
      using st s2 by (simp add: pass_ReadingArgs [OF _ bab] add.assoc)
    from loop_keep [OF bb bab, of clock ?t2] obtain tb ob2 oab2
      where l: "processLoop clock bb ?t2 = Some (tb, ob2)"
        "processLoop clock bab ?t2 = Some (tb, oab2)" "payloadOf ob2 = payloadOf oab2"
      by blast
    show ?thesis
      unfolding processLoop_again [OF pb] processLoop_again [OF pab] l(1,2)
      by (simp add: l(3))
  qed
qed

text \<open>The loop on a buffer, then on what it left with more text appended, against the
  loop on the buffer with that text appended at once.\<close>

lemma loop_split:
  assumes ba: "Choices ba = ca # ra" and bb: "Choices bb = cb # rb"
    and bab: "Choices bab = cab # rab"
    and run: "processLoop clock ba t = Some (ta, oa)"
    and tr: "state ta = stateTrailing \<longrightarrow> b = []"
    and ar: "state ta = stateReadingArgs \<longrightarrow> \<not> endsWithPartial (buf t) tokCallEnd"
  shows "\<exists>tb ob oab. processLoop clock bb (ta\<lparr>buf := buf ta @ b\<rparr>) = Some (tb, ob) \<and>
           processLoop clock bab (t\<lparr>buf := buf t @ b\<rparr>) = Some (tb, oab) \<and>
           payloadOf (oa @ ob) = payloadOf oab"
  using run tr ar
proof (induction rule: processLoop_induct)
  case (stop t ta oa)
  note keep = loop_keep [OF bb bab, of clock "t\<lparr>buf := buf t @ b\<rparr>"]
  show ?case
  proof (cases "state t")
    case stateIdle
    with stop(1) have "ta = t" "oa = []"
      by (auto simp: pass_Idle [OF _ ba] split: option.splits)
    with keep show ?thesis by simp
  next
    case stateReadingID
    with stop(1) have "ta = t" "oa = []"
      by (auto simp: pass_ReadingID [OF _ ba] split: option.splits)
    with keep show ?thesis by simp
  next
    case stateTrailing
    with stop(1) have "ta = t" "oa = []"
      by (simp_all add: pass_Trailing)
    with keep show ?thesis by simp
  next
    case stateInSection
    show ?thesis
    proof (cases "sectionEnd (strindex (buf t) tokCallBegin) (strindex (buf t) tokSectionEnd)")
      case None
      with stop(1) stateInSection have "ta = t" "oa = []"
        by (auto simp: pass_InSection [OF _ ba] split: option.splits)
      with keep show ?thesis by simp
    next
      case (Some e)
      with stop(1) stateInSection have ta: "state ta = stateTrailing" "buf ta = []"
        by (auto simp: pass_InSection [OF _ ba])
      with stop(2) have b: "b = []" by simp
      from pass_rebase [OF ba bab stop(1)] obtain oab
        where "pass clock bab t = Some (False, ta, oab)" "payloadOf oab = payloadOf oa"
        by blast
      moreover from ta have "pass clock bb ta = Some (False, ta, [])"
        by (simp add: pass_Trailing)
      moreover from ta(2) have "ta\<lparr>buf := []\<rparr> = ta"
        by (cases ta) simp
      ultimately show ?thesis
        by (simp add: b processLoop_stop)
    qed
  next
    case stateReadingArgs
    with stop(1) have none: "strindex (buf t) tokCallEnd = None"
      by (auto simp: pass_ReadingArgs [OF _ ba] split: option.splits)
    with stop(1) stateReadingArgs have ta: "ta = t\<lparr>buf := []\<rparr>"
      and oa: "payloadOf oa = map (ArgByte (toolIndex t)) (buf t)"
      by (auto simp: pass_ReadingArgs [OF _ ba])
    with stop(3) stateReadingArgs have np: "\<not> endsWithPartial (buf t) tokCallEnd"
      by simp
    from flush_split [OF bb bab stateReadingArgs none np, of clock b] ta oa show ?thesis
      by simp
  qed
next
  case (again t t1 o1 ta o2)
  from pass_again_suffix [OF again(1)] again(5)
  have "state ta = stateReadingArgs \<longrightarrow> \<not> endsWithPartial (buf t1) tokCallEnd"
    using endsWithPartial_suffix by blast
  from again(3) [OF again(4) this] obtain tb ob oab
    where l: "processLoop clock bb (ta\<lparr>buf := buf ta @ b\<rparr>) = Some (tb, ob)"
      "processLoop clock bab (t1\<lparr>buf := buf t1 @ b\<rparr>) = Some (tb, oab)"
      "payloadOf (o2 @ ob) = payloadOf oab"
    by blast
  from pass_again_extend [OF ba bab again(1), of b] obtain o1'
    where p: "pass clock bab (t\<lparr>buf := buf t @ b\<rparr>) = Some (True, t1\<lparr>buf := buf t1 @ b\<rparr>, o1')"
      "payloadOf o1' = payloadOf o1"
    by blast
  from l p(2) show ?case
    by (simp add: processLoop_again [OF p(1)])
qed

text \<open>
  C2, as the claim states it, fails on a fresh transformer for the text
  \<open>Pre <|tool_calls_section_begin|><|tool_calls_section_end|>\<close>. Fed in two chunks,
  \<open>Pre \<close> and the rest, the first chunk is passed through with its text in the reasoning
  field and no content is emitted; fed in one chunk, \<open>Pre \<close> is emitted as a content
  chunk.
\<close>

theorem chunk_boundary_counterexample:
  "''Pre '' @ ''<|tool_calls_section_begin|><|tool_calls_section_end|>''
     = ''Pre <|tool_calls_section_begin|><|tool_calls_section_end|>'' \<and>
   (\<exists>t1 o1 t2 o2.
      transformAll (\<lambda>i. 42) NewToolCallTransformer
        [Data (Decoded (upstreamChunk ''Pre '' None)),
         Data (Decoded (upstreamChunk ''<|tool_calls_section_begin|><|tool_calls_section_end|>''
           None))] = Some (t1, o1) \<and>
      transformAll (\<lambda>i. 42) NewToolCallTransformer
        [Data (Decoded (upstreamChunk
           ''Pre <|tool_calls_section_begin|><|tool_calls_section_end|>'' None))] = Some (t2, o2) \<and>
      payloadOf o1 = [] \<and>
      payloadOf o2 = map ContentByte ''Pre '')"
proof -
  have "itemsOf (Verbatim (upstreamChunk r f)) = []" for r f
    by (simp add: itemsOf_def deltaOf_def upstreamChunk_def zeroDelta_def)
  then show ?thesis
    by (simp add: run_rules)
qed

text \<open>
  C2, amended. Once the transformer has left the idle state, a chunk may be split in two
  at any point without changing what is emitted, under two provisos. The payload of the
  two feeds (content bytes, headers with id, name and index, argument bytes with their
  index, in order) is the payload of the one feed, and the transformer ends in the same
  state. The provisos: if the first part leaves the transformer after the end of the
  section, the second part is empty; and if the first part leaves it reading arguments,
  the text seen up to the split does not end in a partial \<open><|tool_call_end|>\<close>.
\<close>

theorem split_independence:
  assumes "state t \<noteq> stateIdle"
    and "Choices ca = cha # ra" and "Choices cb = chb # rb" and "Choices cab = chab # rab"
    and "reasoningOf chab = reasoningOf cha @ reasoningOf chb"
    and "processEvent clock t (Decoded ca) = Some (ta, oa)"
    and "state ta = stateTrailing \<longrightarrow> reasoningOf chb = []"
    and "state ta = stateReadingArgs \<longrightarrow>
           \<not> endsWithPartial (buf t @ reasoningOf cha) tokCallEnd"
  shows "\<exists>tb ob oab. processEvent clock ta (Decoded cb) = Some (tb, ob) \<and>
           processEvent clock t (Decoded cab) = Some (tb, oab) \<and>
           payloadOf (oa @ ob) = payloadOf oab"
proof -
  let ?t = "t\<lparr>buf := buf t @ reasoningOf cha\<rparr>"
  from assms(1,2,6) have run: "processLoop clock (promoteFinishReason ca) ?t = Some (ta, oa)"
    by (simp add: processEvent_rewrite processReasoning_def)
  from processLoop_not_idle [OF run] assms(1) have ni: "state ta \<noteq> stateIdle"
    by simp
  from assms(8) have "state ta = stateReadingArgs \<longrightarrow> \<not> endsWithPartial (buf ?t) tokCallEnd"
    by simp
  from loop_split [OF promote_choice [OF assms(2)] promote_choice [OF assms(3)]
      promote_choice [OF assms(4)] run assms(7) this]
  obtain tb ob oab
    where "processLoop clock (promoteFinishReason cb) (ta\<lparr>buf := buf ta @ reasoningOf chb\<rparr>)
        = Some (tb, ob)"
      and "processLoop clock (promoteFinishReason cab) (?t\<lparr>buf := buf ?t @ reasoningOf chb\<rparr>)
        = Some (tb, oab)"
      and "payloadOf (oa @ ob) = payloadOf oab"
    by blast
  with assms(1,3,4,5) ni show ?thesis
    by (simp add: processEvent_rewrite processReasoning_def)
qed

theorem split_independence_witness:
  "state readingArgs0 \<noteq> stateIdle \<and>
   ''{x: 1}<|tool_call_end|>'' = ''{x: '' @ ''1}<|tool_call_end|>'' \<and>
   \<not> endsWithPartial (buf readingArgs0 @ ''{x: '') tokCallEnd \<and>
   (\<exists>ta oa tb ob oab.
      processEvent (\<lambda>i. 42) readingArgs0 (Decoded (upstreamChunk ''{x: '' None)) = Some (ta, oa) \<and>
      state ta = stateReadingArgs \<and>
      processEvent (\<lambda>i. 42) ta (Decoded (upstreamChunk ''1}<|tool_call_end|>'' None))
        = Some (tb, ob) \<and>
      processEvent (\<lambda>i. 42) readingArgs0 (Decoded (upstreamChunk ''{x: 1}<|tool_call_end|>'' None))
        = Some (tb, oab) \<and>
      payloadOf (oa @ ob) = payloadOf oab)"
proof -
  have ni: "state readingArgs0 \<noteq> stateIdle" and b: "buf readingArgs0 = []"
    by (simp_all add: readingArgs0_def)
  have r: "reasoningOf \<lparr>Index = 0, Delta = zeroDelta\<lparr>Reasoning := s\<rparr>, FinishReason = None\<rparr> = s"
    for s
    by (simp add: reasoningOf_def zeroDelta_def)
  have np: "\<not> endsWithPartial (buf readingArgs0 @ ''{x: '') tokCallEnd"
    unfolding b endsWithPartial_def tokCallEnd_def by code_simp
  have "\<exists>oa. processEvent (\<lambda>i. 42) readingArgs0 (Decoded (upstreamChunk ''{x: '' None))
      = Some (readingArgs0, oa)"
    by (simp add: run_rules)
  then obtain oa where first: "processEvent (\<lambda>i. 42) readingArgs0
      (Decoded (upstreamChunk ''{x: '' None)) = Some (readingArgs0, oa)"
    by blast
  have st: "state readingArgs0 = stateReadingArgs"
    by (simp add: readingArgs0_def)
  have cat: "reasoningOf \<lparr>Index = 0, Delta = zeroDelta\<lparr>Reasoning := ''{x: 1}<|tool_call_end|>''\<rparr>,
        FinishReason = None\<rparr>
      = reasoningOf \<lparr>Index = 0, Delta = zeroDelta\<lparr>Reasoning := ''{x: ''\<rparr>, FinishReason = None\<rparr>
        @ reasoningOf \<lparr>Index = 0, Delta = zeroDelta\<lparr>Reasoning := ''1}<|tool_call_end|>''\<rparr>,
            FinishReason = None\<rparr>"
    by (simp add: r)
  have tr: "state readingArgs0 = stateTrailing \<longrightarrow>
      reasoningOf \<lparr>Index = 0, Delta = zeroDelta\<lparr>Reasoning := ''1}<|tool_call_end|>''\<rparr>,
        FinishReason = None\<rparr> = []"
    by (simp add: readingArgs0_def)
  have ar: "state readingArgs0 = stateReadingArgs \<longrightarrow>
      \<not> endsWithPartial (buf readingArgs0 @
        reasoningOf \<lparr>Index = 0, Delta = zeroDelta\<lparr>Reasoning := ''{x: ''\<rparr>, FinishReason = None\<rparr>)
        tokCallEnd"
    using np by (simp add: r)
  from split_independence [OF ni Choices_upstreamChunk Choices_upstreamChunk
      Choices_upstreamChunk cat first tr ar]
  obtain tb ob oab
    where "processEvent (\<lambda>i. 42) readingArgs0 (Decoded (upstreamChunk ''1}<|tool_call_end|>'' None))
        = Some (tb, ob)"
      and "processEvent (\<lambda>i. 42) readingArgs0
        (Decoded (upstreamChunk ''{x: 1}<|tool_call_end|>'' None)) = Some (tb, oab)"
      and "payloadOf (oa @ ob) = payloadOf oab"
    by blast
  with first st have "\<exists>ta oa tb ob oab.
      processEvent (\<lambda>i. 42) readingArgs0 (Decoded (upstreamChunk ''{x: '' None)) = Some (ta, oa) \<and>
      state ta = stateReadingArgs \<and>
      processEvent (\<lambda>i. 42) ta (Decoded (upstreamChunk ''1}<|tool_call_end|>'' None))
        = Some (tb, ob) \<and>
      processEvent (\<lambda>i. 42) readingArgs0 (Decoded (upstreamChunk ''{x: 1}<|tool_call_end|>'' None))
        = Some (tb, oab) \<and>
      payloadOf (oa @ ob) = payloadOf oab"
    by (intro exI [of _ readingArgs0] exI [of _ oa] exI [of _ tb] exI [of _ ob] exI [of _ oab]
        conjI)
  moreover have "''{x: 1}<|tool_call_end|>'' = ''{x: '' @ ''1}<|tool_call_end|>''"
    by simp
  ultimately show ?thesis
    using ni np by (intro conjI)
qed

end
